theory Spec2Isabelle
  imports Main "HOL-Library.Word"
begin

section \<open>Event model (events.ts)\<close>

text \<open>
  A byte array (\<^verbatim>\<open>Uint8Array\<close>) is a list of 8-bit words. A JavaScript string is a
  \<^typ>\<open>string\<close>; a field that is absent (\<^verbatim>\<open>undefined\<close>) in an optional position is
  \<^const>\<open>None\<close>. The four required string fields of an event are plain strings: the empty
  string stands for both the empty and the absent field, the two cases the falsiness test
  of \<^verbatim>\<open>isValidEvent\<close> does not tell apart. Timestamps are the integers
  \<^verbatim>\<open>Date.now()\<close> returns.
\<close>

type_synonym bytes = "8 word list"

text \<open>
  \<^verbatim>\<open>content: Record<string, any>\<close>, specialised per event type. The model is the union of the
  keys the four event interfaces declare; the encrypted payload of a post is kept as an opaque
  string.
\<close>

record Content =
  topic :: "string option"
  text' :: "string option"
  mentions :: "string list option"
  replyTo :: "string option"
  encrypted :: "string option"
  target :: "string option"
  encryptionPublicKey :: "string option"
  displayName :: "string option"
  username :: "string option"
  bio :: "string option"

definition emptyContent :: Content where
  "emptyContent = \<lparr>topic = None, text' = None, mentions = None, replyTo = None,
     encrypted = None, target = None, encryptionPublicKey = None, displayName = None,
     username = None, bio = None\<rparr>"

text \<open>\<^verbatim>\<open>BaseEvent\<close>. The field \<^verbatim>\<open>id\<close> is named \<open>id'\<close> here, \<^verbatim>\<open>type\<close> is
  the string the wire format carries.\<close>

record Event =
  id' :: string
  type :: string
  author :: string
  timestamp :: int
  signature :: string
  content :: Content

definition DEFAULT_TOPIC :: string where
  "DEFAULT_TOPIC = ''general''"

subsection \<open>Platform primitives\<close>

text \<open>
  The functions the event model calls but does not define: SHA-256 of the UTF-8 encoding of a
  string (\<^verbatim>\<open>crypto.subtle.digest\<close>), \<^verbatim>\<open>JSON.stringify\<close> of the four hashed fields
  and of a content object, Ed25519 signing and verification over the UTF-8 encoding of a message
  (\<^verbatim>\<open>ed25519.sign\<close>, \<^verbatim>\<open>ed25519.verify\<close>, whose promise may reject: \<^const>\<open>None\<close>), and
  base64 of a byte array (\<^verbatim>\<open>btoa(String.fromCharCode(...))\<close>) with its inverse
  \<^verbatim>\<open>atob\<close>, which throws on a string that is not base64 (\<^const>\<open>None\<close>). They are
  parameters of the model.
\<close>

record Platform =
  sha256 :: "string \<Rightarrow> bytes"
  stringify_event :: "string \<Rightarrow> string \<Rightarrow> int \<Rightarrow> Content \<Rightarrow> string"
  stringify_content :: "Content \<Rightarrow> string"
  ed25519_sign :: "string \<Rightarrow> bytes \<Rightarrow> bytes"
  ed25519_verify :: "bytes \<Rightarrow> string \<Rightarrow> bytes \<Rightarrow> bool option"
  btoa :: "bytes \<Rightarrow> string"
  atob :: "string \<Rightarrow> bytes option"

datatype error = InvalidCharacterError | VerifyRejected

subsection \<open>identity.ts: the three functions the event model imports\<close>

definition signMessage :: "Platform \<Rightarrow> string \<Rightarrow> bytes \<Rightarrow> bytes" where
  "signMessage P message privateKey = ed25519_sign P message privateKey"

text \<open>\<^verbatim>\<open>try { return ed25519.verify(...) } catch { return false }\<close>: the promise of the
  asynchronous \<^verbatim>\<open>ed25519.verify\<close> is returned without \<^verbatim>\<open>await\<close>, so its rejection
  passes the \<^verbatim>\<open>catch\<close> and \<^verbatim>\<open>verifySignature\<close> rejects with it.\<close>

definition verifySignature :: "Platform \<Rightarrow> string \<Rightarrow> bytes \<Rightarrow> bytes \<Rightarrow> error + bool" where
  "verifySignature P message sig publicKey =
     (case ed25519_verify P sig message publicKey of None \<Rightarrow> Inl VerifyRejected | Some b \<Rightarrow> Inr b)"

definition publicKeyToString :: "Platform \<Rightarrow> bytes \<Rightarrow> string" where
  "publicKeyToString P publicKey = btoa P publicKey"

subsection \<open>Event ids\<close>

definition hexdigit :: "nat \<Rightarrow> char" where
  "hexdigit d = (''0123456789abcdef'' ! d)"

text \<open>\<^verbatim>\<open>b.toString(16).padStart(2, '0')\<close> for a byte \<open>b\<close>.\<close>

definition hex2 :: "8 word \<Rightarrow> string" where
  "hex2 b = [hexdigit (unat b div 16), hexdigit (unat b mod 16)]"

definition createEventIdAsync :: "Platform \<Rightarrow> string \<Rightarrow> string \<Rightarrow> int \<Rightarrow> Content \<Rightarrow> string" where
  "createEventIdAsync P ty au ts c =
     (let canonical = stringify_event P ty au ts c;
          hashArray = sha256 P canonical
      in concat (map hex2 hashArray))"

subsection \<open>Creating events\<close>

text \<open>The tail shared by the four constructors: hash, sign \<^verbatim>\<open>id + JSON.stringify(content)\<close>,
  base64 the signature, assemble.\<close>

definition signEvent :: "Platform \<Rightarrow> string \<Rightarrow> string \<Rightarrow> int \<Rightarrow> Content \<Rightarrow> bytes \<Rightarrow> Event" where
  "signEvent P ty au ts c authorPrivateKey =
     (let i = createEventIdAsync P ty au ts c;
          message = i @ stringify_content P c;
          sg = signMessage P message authorPrivateKey;
          signatureStr = btoa P sg
      in \<lparr>id' = i, type = ty, author = au, timestamp = ts, signature = signatureStr,
          content = c\<rparr>)"

subsection \<open>String helpers of the JavaScript runtime\<close>

text \<open>\<^verbatim>\<open>String.prototype.trim\<close> and \<^verbatim>\<open>toLowerCase\<close>, on ASCII: the white space
  characters are space, tab, line feed, vertical tab, form feed and carriage return, and the
  letters \<open>A\<close> to \<open>Z\<close> are lowered. Characters beyond ASCII are left as they are.\<close>

definition isWhiteSpace :: "char \<Rightarrow> bool" where
  "isWhiteSpace c = (c \<in> set [CHR '' '', CHR 0x09, CHR 0x0A, CHR 0x0B, CHR 0x0C, CHR 0x0D])"

definition trim :: "string \<Rightarrow> string" where
  "trim s = rev (dropWhile isWhiteSpace (rev (dropWhile isWhiteSpace s)))"

definition lowerChar :: "char \<Rightarrow> char" where
  "lowerChar c =
     (case map_of (zip ''ABCDEFGHIJKLMNOPQRSTUVWXYZ'' ''abcdefghijklmnopqrstuvwxyz'') c of
        None \<Rightarrow> c | Some l \<Rightarrow> l)"

definition toLowerCase :: "string \<Rightarrow> string" where
  "toLowerCase s = map lowerChar s"

text \<open>\<^verbatim>\<open>s.slice(0, n)\<close>\<close>

definition slice0 :: "nat \<Rightarrow> 'a list \<Rightarrow> 'a list" where
  "slice0 n s = take n s"

subsection \<open>The four constructors\<close>

text \<open>Each takes the value of \<^verbatim>\<open>Date.now()\<close> as its first argument after the platform.\<close>

definition createPostEvent ::
  "Platform \<Rightarrow> int \<Rightarrow> string \<Rightarrow> bytes \<Rightarrow> bytes \<Rightarrow> string list option \<Rightarrow> string option \<Rightarrow>
     string option \<Rightarrow> string option \<Rightarrow> Event" where
  "createPostEvent P now txt authorPublicKey authorPrivateKey ments reply encryptedPayload tpc =
     (let au = publicKeyToString P authorPublicKey;
          topicVal = (case tpc of None \<Rightarrow> DEFAULT_TOPIC
                      | Some t \<Rightarrow> if trim t = [] then DEFAULT_TOPIC else trim t);
          c = (case encryptedPayload of
                 Some enc \<Rightarrow> emptyContent\<lparr>topic := Some topicVal, encrypted := Some enc\<rparr>
               | None \<Rightarrow> emptyContent\<lparr>topic := Some topicVal, text' := Some txt,
                           mentions := ments,
                           replyTo := (case reply of None \<Rightarrow> None
                                       | Some r \<Rightarrow> if r = [] then None else Some r)\<rparr>)
      in signEvent P ''post'' au now c authorPrivateKey)"

definition createFollowEvent ::
  "Platform \<Rightarrow> int \<Rightarrow> bytes \<Rightarrow> bytes \<Rightarrow> bytes \<Rightarrow> string option \<Rightarrow> Event" where
  "createFollowEvent P now targetPublicKey authorPublicKey authorPrivateKey encryptionPublicKeyBase64 =
     (let au = publicKeyToString P authorPublicKey;
          tg = publicKeyToString P targetPublicKey;
          c = emptyContent\<lparr>target := Some tg,
                encryptionPublicKey := (case encryptionPublicKeyBase64 of None \<Rightarrow> None
                                        | Some k \<Rightarrow> if k = [] then None else Some k)\<rparr>
      in signEvent P ''follow'' au now c authorPrivateKey)"

definition createProfileEvent ::
  "Platform \<Rightarrow> int \<Rightarrow> bytes \<Rightarrow> bytes \<Rightarrow> Content \<Rightarrow> Event" where
  "createProfileEvent P now authorPublicKey authorPrivateKey c =
     (let au = publicKeyToString P authorPublicKey;
          clean = emptyContent\<lparr>
            displayName := map_option (\<lambda>s. slice0 32 (trim s)) (displayName c),
            username := map_option
              (\<lambda>s. slice0 30 (filter (\<lambda>ch. ch \<in> set ''abcdefghijklmnopqrstuvwxyz0123456789_'')
                      (toLowerCase (trim s)))) (username c),
            bio := map_option (\<lambda>s. slice0 160 (trim s)) (bio c)\<rparr>
      in signEvent P ''profile'' au now clean authorPrivateKey)"

definition createUnfollowEvent ::
  "Platform \<Rightarrow> int \<Rightarrow> bytes \<Rightarrow> bytes \<Rightarrow> bytes \<Rightarrow> Event" where
  "createUnfollowEvent P now targetPublicKey authorPublicKey authorPrivateKey =
     (let au = publicKeyToString P authorPublicKey;
          tg = publicKeyToString P targetPublicKey;
          c = emptyContent\<lparr>target := Some tg\<rparr>
      in signEvent P ''unfollow'' au now c authorPrivateKey)"

subsection \<open>Verification\<close>

text \<open>\<^verbatim>\<open>verifyEvent\<close> returns a boolean, or throws where \<^verbatim>\<open>atob\<close> or
  \<^verbatim>\<open>verifySignature\<close> does.\<close>

definition verifyEvent :: "Platform \<Rightarrow> Event \<Rightarrow> error + bool" where
  "verifyEvent P e =
     (let expectedId = createEventIdAsync P (type e) (author e) (timestamp e) (content e)
      in if expectedId \<noteq> id' e then Inr False
         else let message = id' e @ stringify_content P (content e)
              in case atob P (signature e) of
                   None \<Rightarrow> Inl InvalidCharacterError
                 | Some sg \<Rightarrow>
                     (case atob P (author e) of
                        None \<Rightarrow> Inl InvalidCharacterError
                      | Some publicKey \<Rightarrow> verifySignature P message sg publicKey))"

definition isValidEvent :: "Platform \<Rightarrow> Event \<Rightarrow> error + bool" where
  "isValidEvent P e =
     (if id' e = [] \<or> type e = [] \<or> author e = [] \<or> signature e = [] then Inr False
      else if type e \<notin> set [''post'', ''follow'', ''unfollow''] then Inr False
      else verifyEvent P e)"

section \<open>Storage layer (storage.ts)\<close>

text \<open>
  An object store is the list of its records, one per key; \<^verbatim>\<open>put\<close> replaces the record
  whose key equals the new record's key, or adds the record. A cursor over the store or over
  one key of an index visits the records in the list's order (IndexedDB visits them in key
  order; nothing below depends on the order among records the later, stable sort by timestamp
  leaves tied). The stores \<^verbatim>\<open>peers\<close> and \<^verbatim>\<open>settings\<close> take no part in what follows
  and are left out.
\<close>

fun put :: "('a \<Rightarrow> string) \<Rightarrow> 'a \<Rightarrow> 'a list \<Rightarrow> 'a list" where
  "put k v [] = [v]"
| "put k v (x # xs) = (if k x = k v then v # xs else x # put k v xs)"

fun get :: "('a \<Rightarrow> string) \<Rightarrow> string \<Rightarrow> 'a list \<Rightarrow> 'a option" where
  "get k i [] = None"
| "get k i (x # xs) = (if k x = i then Some x else get k i xs)"

record ProfileRow =
  author_p :: string
  displayName_p :: "string option"
  username_p :: "string option"
  bio_p :: "string option"
  updatedAt :: int

record DB =
  events :: "Event list"
  follows :: "Event list"
  profiles :: "ProfileRow list"

definition emptyDB :: DB where
  "emptyDB = \<lparr>events = [], follows = [], profiles = []\<rparr>"

text \<open>\<^verbatim>\<open>new Set(xs)\<close>, \<^verbatim>\<open>s.add(x)\<close>, \<^verbatim>\<open>s.delete(x)\<close>: a JavaScript set is the list of its
  members in insertion order; \<^verbatim>\<open>s.has(x)\<close> is \<open>x \<in> set s\<close> and \<^verbatim>\<open>Array.from(s)\<close> is the
  list itself.\<close>

definition set_add :: "'a \<Rightarrow> 'a list \<Rightarrow> 'a list" where
  "set_add x s = (if x \<in> set s then s else s @ [x])"

definition set_delete :: "'a \<Rightarrow> 'a list \<Rightarrow> 'a list" where
  "set_delete x s = filter (\<lambda>y. y \<noteq> x) s"

definition newSet :: "'a list \<Rightarrow> 'a list" where
  "newSet xs = foldl (\<lambda>s x. set_add x s) [] xs"

text \<open>\<^verbatim>\<open>xs.sort((a, b) => b.timestamp - a.timestamp)\<close> and its ascending twin: a stable sort.\<close>

definition sortDesc :: "('a \<Rightarrow> int) \<Rightarrow> 'a list \<Rightarrow> 'a list" where
  "sortDesc ts xs = sort_key (\<lambda>x. - ts x) xs"

definition sortAsc :: "('a \<Rightarrow> int) \<Rightarrow> 'a list \<Rightarrow> 'a list" where
  "sortAsc ts xs = sort_key ts xs"

text \<open>The row \<^verbatim>\<open>storeEvent\<close> writes to \<^verbatim>\<open>profiles\<close> for a Profile event.\<close>

definition profileRow :: "Event \<Rightarrow> ProfileRow" where
  "profileRow ev =
     \<lparr>author_p = author ev, displayName_p = displayName (content ev),
      username_p = username (content ev), bio_p = bio (content ev),
      updatedAt = timestamp ev\<rparr>"

definition storeEvent :: "Event \<Rightarrow> DB \<Rightarrow> DB" where
  "storeEvent e d =
     (let d1 = d\<lparr>events := put id' e (events d)\<rparr>
      in if type e = ''profile''
         then d1\<lparr>profiles := put author_p (profileRow e) (profiles d1)\<rparr>
         else d1)"

text \<open>A sequence of \<^verbatim>\<open>storeEvent\<close> calls, first to last.\<close>

definition storeEventSeq :: "Event list \<Rightarrow> DB \<Rightarrow> DB" where
  "storeEventSeq es d = foldl (\<lambda>acc e. storeEvent e acc) d es"

text \<open>\<^verbatim>\<open>getProfile\<close>: the row's three texts, trimmed; \<^const>\<open>None\<close> is \<^verbatim>\<open>undefined\<close>.\<close>

definition getProfile :: "DB \<Rightarrow> string \<Rightarrow> (string option \<times> string option \<times> string option) option" where
  "getProfile d a =
     (case get author_p a (profiles d) of
        None \<Rightarrow> None
      | Some row \<Rightarrow> Some (map_option trim (displayName_p row), map_option trim (username_p row),
                          map_option trim (bio_p row)))"

definition getEvent :: "DB \<Rightarrow> string \<Rightarrow> Event option" where
  "getEvent d eventId = get id' eventId (events d)"

definition hasEvent :: "DB \<Rightarrow> string \<Rightarrow> bool" where
  "hasEvent d eventId = (length (filter (\<lambda>e. id' e = eventId) (events d)) > 0)"

text \<open>The range of a cursor: \<^verbatim>\<open>since\<close> and \<^verbatim>\<open>until\<close> are inclusive bounds when given.\<close>

definition inRange :: "int option \<Rightarrow> int option \<Rightarrow> int \<Rightarrow> bool" where
  "inRange since until t =
     ((case since of None \<Rightarrow> True | Some s \<Rightarrow> s \<le> t) \<and> (case until of None \<Rightarrow> True | Some u \<Rightarrow> t \<le> u))"

definition getEventsInRange :: "DB \<Rightarrow> int option \<Rightarrow> int option \<Rightarrow> Event list" where
  "getEventsInRange d since until =
     sortDesc timestamp (filter (\<lambda>e. inRange since until (timestamp e)) (sortAsc timestamp (events d)))"

definition normTopic :: "string option \<Rightarrow> string" where
  "normTopic t = toLowerCase (trim (case t of None \<Rightarrow> DEFAULT_TOPIC | Some s \<Rightarrow> s))"

definition getPostsByTopic :: "DB \<Rightarrow> string \<Rightarrow> nat \<Rightarrow> Event list" where
  "getPostsByTopic d tpc limit =
     (let all = getEventsInRange d None None;
          normalized = (if toLowerCase (trim tpc) = [] then DEFAULT_TOPIC else toLowerCase (trim tpc));
          posts = filter (\<lambda>e. type e = ''post'' \<and> normTopic (topic (content e)) = normalized) all
      in slice0 limit (sortDesc timestamp posts))"

text \<open>\<^verbatim>\<open>getEventsByAuthor\<close>: the cursor loop stops once \<^verbatim>\<open>limit\<close> events are read; a limit
  that is absent or \<open>0\<close> is no limit.\<close>

definition getEventsByAuthor :: "DB \<Rightarrow> string \<Rightarrow> nat option \<Rightarrow> Event list" where
  "getEventsByAuthor d a limit =
     (let cursor = filter (\<lambda>e. author e = a) (events d);
          evs = (case limit of None \<Rightarrow> cursor | Some l \<Rightarrow> if l = 0 then cursor else take l cursor);
          sorted = sortDesc timestamp evs
      in case limit of None \<Rightarrow> sorted | Some l \<Rightarrow> if l = 0 then sorted else slice0 l sorted)"

definition storeFollow :: "Event \<Rightarrow> DB \<Rightarrow> DB" where
  "storeFollow f d = d\<lparr>follows := put id' f (follows d)\<rparr>"

definition getFollowsByAuthor :: "DB \<Rightarrow> string \<Rightarrow> Event list" where
  "getFollowsByAuthor d a = sortDesc timestamp (filter (\<lambda>e. author e = a) (follows d))"

definition getFollowersOf :: "DB \<Rightarrow> string \<Rightarrow> Event list" where
  "getFollowersOf d a = sortDesc timestamp (filter (\<lambda>e. target (content e) = Some a) (follows d))"

text \<open>\<^verbatim>\<open>isFollowing\<close>: the cursor loop over the follower's records in \<^verbatim>\<open>follows\<close>.\<close>

fun isFollowing_cursor :: "Event list \<Rightarrow> string \<Rightarrow> bool" where
  "isFollowing_cursor [] followee = False"
| "isFollowing_cursor (v # rest) followee =
     (if target (content v) = Some followee then True else isFollowing_cursor rest followee)"

definition isFollowing :: "DB \<Rightarrow> string \<Rightarrow> string \<Rightarrow> bool" where
  "isFollowing d follower followee =
     isFollowing_cursor (filter (\<lambda>e. author e = follower) (follows d)) followee"

definition getAllEventIds :: "DB \<Rightarrow> string list" where
  "getAllEventIds d = newSet (map id' (events d))"

section \<open>Gossip protocol (gossip.ts)\<close>

definition MAX_BATCH_SIZE :: nat where
  "MAX_BATCH_SIZE = 100"

datatype GossipMessage =
    SyncRequest "string list"
  | SyncResponse "string list" "string list"
  | EventRequest "string list"
  | EventResponse "Event list"
  | NewEvent Event

text \<open>
  One running process: its database, the fields of its \<^verbatim>\<open>GossipProtocol\<close> object, the peers
  its network reports as connected, and the messages it has handed to
  \<^verbatim>\<open>network.sendMessage\<close>, oldest first, each with the peer it is addressed to. The
  asynchronous functions are run to completion one after the other.
\<close>

record Node =
  db :: DB
  seenEventIds :: "string list"
  eventQueue :: "Event list"
  processingQueue :: bool
  connectedPeers :: "string list"
  outbox :: "(string \<times> GossipMessage) list"

definition sendMessage :: "string \<Rightarrow> GossipMessage \<Rightarrow> Node \<Rightarrow> Node" where
  "sendMessage peerId message n = n\<lparr>outbox := outbox n @ [(peerId, message)]\<rparr>"

text \<open>\<^verbatim>\<open>start\<close>: the seen set is loaded from the store.\<close>

definition start :: "Node \<Rightarrow> Node" where
  "start n = n\<lparr>seenEventIds := getAllEventIds (db n)\<rparr>"

definition syncWithPeer :: "string \<Rightarrow> Node \<Rightarrow> Node" where
  "syncWithPeer peerId n =
     (let ourEventIds = getAllEventIds (db n)
      in sendMessage peerId (SyncRequest ourEventIds) n)"

text \<open>\<^verbatim>\<open>xs.slice(i, j)\<close> for \<open>i \<le> j\<close>.\<close>

definition slice :: "'a list \<Rightarrow> nat \<Rightarrow> nat \<Rightarrow> 'a list" where
  "slice xs i j = take (j - i) (drop i xs)"

text \<open>\<^verbatim>\<open>requestEvents\<close>: the loop \<^verbatim>\<open>for (let i = 0; i < eventIds.length; i += MAX_BATCH_SIZE)\<close>.\<close>

function requestEvents_loop :: "nat \<Rightarrow> string \<Rightarrow> string list \<Rightarrow> Node \<Rightarrow> Node" where
  "requestEvents_loop i peerId eventIds n =
     (if i < length eventIds
      then let batch = slice eventIds i (i + MAX_BATCH_SIZE)
           in requestEvents_loop (i + MAX_BATCH_SIZE) peerId eventIds
                (sendMessage peerId (EventRequest batch) n)
      else n)"
  by pat_completeness auto
termination
  by (relation "measure (\<lambda>(i, peerId, eventIds, n). length eventIds - i)")
     (auto simp: MAX_BATCH_SIZE_def)

declare requestEvents_loop.simps [simp del]

definition requestEvents :: "string \<Rightarrow> string list \<Rightarrow> Node \<Rightarrow> Node" where
  "requestEvents peerId eventIds n = requestEvents_loop 0 peerId eventIds n"

definition handleSyncRequest :: "string \<Rightarrow> string list \<Rightarrow> Node \<Rightarrow> Node" where
  "handleSyncRequest peerId eventIds n =
     (let theirEventIds = newSet eventIds;
          ourEventIds = getAllEventIds (db n);
          missingIds = filter (\<lambda>i. i \<notin> set ourEventIds) theirEventIds;
          theirMissingIds = filter (\<lambda>i. i \<notin> set theirEventIds) ourEventIds;
          n1 = sendMessage peerId (SyncResponse theirMissingIds missingIds) n
      in if length missingIds > 0 then requestEvents peerId missingIds n1 else n1)"

definition handleSyncResponse :: "string \<Rightarrow> string list \<Rightarrow> string list \<Rightarrow> Node \<Rightarrow> Node" where
  "handleSyncResponse peerId missingIds theirMissingIds n =
     (if length missingIds > 0 then requestEvents peerId missingIds n else n)"

fun handleEventRequest_loop :: "DB \<Rightarrow> string list \<Rightarrow> Event list" where
  "handleEventRequest_loop d [] = []"
| "handleEventRequest_loop d (eventId # rest) =
     (case getEvent d eventId of
        Some event \<Rightarrow> event # handleEventRequest_loop d rest
      | None \<Rightarrow> handleEventRequest_loop d rest)"

definition handleEventRequest :: "string \<Rightarrow> string list \<Rightarrow> Node \<Rightarrow> Node" where
  "handleEventRequest peerId eventIds n =
     sendMessage peerId (EventResponse (handleEventRequest_loop (db n) eventIds)) n"

text \<open>\<^verbatim>\<open>processEventQueue\<close>: the worker takes the queued events in order and sends each, as
  \<^verbatim>\<open>new-event\<close>, to every connected peer.\<close>

fun sendToPeers :: "string list \<Rightarrow> GossipMessage \<Rightarrow> Node \<Rightarrow> Node" where
  "sendToPeers [] message n = n"
| "sendToPeers (peerId # peers) message n = sendToPeers peers message (sendMessage peerId message n)"

fun processEventQueue_loop :: "Event list \<Rightarrow> Node \<Rightarrow> Node" where
  "processEventQueue_loop [] n = n"
| "processEventQueue_loop (event # rest) n =
     processEventQueue_loop rest
       (sendToPeers (connectedPeers n) (NewEvent event) (n\<lparr>eventQueue := rest\<rparr>))"

definition processEventQueue :: "Node \<Rightarrow> Node" where
  "processEventQueue n =
     (if processingQueue n then n
      else (processEventQueue_loop (eventQueue n) (n\<lparr>processingQueue := True\<rparr>))
             \<lparr>processingQueue := False\<rparr>)"

text \<open>\<^verbatim>\<open>processIncomingEvent\<close>. It throws where \<^verbatim>\<open>isValidEvent\<close> does, before it has
  changed anything.\<close>

definition processIncomingEvent :: "Platform \<Rightarrow> Event \<Rightarrow> string \<Rightarrow> Node \<Rightarrow> error + Node" where
  "processIncomingEvent P event fromPeer n =
     (if id' event \<in> set (seenEventIds n) then Inr n
      else case isValidEvent P event of
             Inl err \<Rightarrow> Inl err
           | Inr isValid \<Rightarrow>
               if \<not> isValid then Inr n
               else if hasEvent (db n) (id' event)
               then Inr (n\<lparr>seenEventIds := set_add (id' event) (seenEventIds n)\<rparr>)
               else let n1 = n\<lparr>db := storeEvent event (db n)\<rparr>;
                        n2 = n1\<lparr>seenEventIds := set_add (id' event) (seenEventIds n1)\<rparr>;
                        n3 = n2\<lparr>eventQueue := eventQueue n2 @ [event]\<rparr>
                    in Inr (if \<not> processingQueue n3 then processEventQueue n3 else n3))"

text \<open>\<^verbatim>\<open>handleEventResponse\<close>: an exception leaves the loop; what the earlier events did
  stays.\<close>

fun handleEventResponse :: "Platform \<Rightarrow> string \<Rightarrow> Event list \<Rightarrow> Node \<Rightarrow> Node \<times> error option" where
  "handleEventResponse P peerId [] n = (n, None)"
| "handleEventResponse P peerId (event # rest) n =
     (case processIncomingEvent P event peerId n of
        Inl err \<Rightarrow> (n, Some err)
      | Inr n1 \<Rightarrow> handleEventResponse P peerId rest n1)"

definition handleNewEvent :: "Platform \<Rightarrow> string \<Rightarrow> Event \<Rightarrow> Node \<Rightarrow> Node \<times> error option" where
  "handleNewEvent P peerId event n =
     (case processIncomingEvent P event peerId n of
        Inl err \<Rightarrow> (n, Some err)
      | Inr n1 \<Rightarrow> (n1, None))"

fun handleMessage :: "Platform \<Rightarrow> string \<Rightarrow> GossipMessage \<Rightarrow> Node \<Rightarrow> Node \<times> error option" where
  "handleMessage P peerId (SyncRequest eventIds) n = (handleSyncRequest peerId eventIds n, None)"
| "handleMessage P peerId (SyncResponse missingIds theirMissingIds) n =
     (handleSyncResponse peerId missingIds theirMissingIds n, None)"
| "handleMessage P peerId (EventRequest eventIds) n = (handleEventRequest peerId eventIds n, None)"
| "handleMessage P peerId (EventResponse evs) n = handleEventResponse P peerId evs n"
| "handleMessage P peerId (NewEvent event) n = handleNewEvent P peerId event n"

text \<open>\<^verbatim>\<open>handleIncomingStream\<close> catches and logs the exception.\<close>

definition handleIncomingStream :: "Platform \<Rightarrow> string \<Rightarrow> GossipMessage \<Rightarrow> Node \<Rightarrow> Node" where
  "handleIncomingStream P peerId message n = fst (handleMessage P peerId message n)"

definition broadcastEvent :: "Event \<Rightarrow> Node \<Rightarrow> Node" where
  "broadcastEvent event n =
     (let n1 = n\<lparr>db := storeEvent event (db n)\<rparr>;
          n2 = n1\<lparr>seenEventIds := set_add (id' event) (seenEventIds n1)\<rparr>
      in sendToPeers (connectedPeers n2) (NewEvent event) n2)"

subsection \<open>Two connected processes\<close>

text \<open>
  The network between two processes: \<open>transmit\<close> takes the messages the sender has handed to
  \<^verbatim>\<open>network.sendMessage\<close> for the receiver, in the order sent, and runs the receiver's
  stream handler on each; the sender's outbox is then empty.
\<close>

definition addressedTo :: "string \<Rightarrow> (string \<times> GossipMessage) list \<Rightarrow> GossipMessage list" where
  "addressedTo peerId out = map snd (filter (\<lambda>pm. fst pm = peerId) out)"

fun deliver :: "Platform \<Rightarrow> string \<Rightarrow> GossipMessage list \<Rightarrow> Node \<Rightarrow> Node" where
  "deliver P fromPeer [] n = n"
| "deliver P fromPeer (m # ms) n = deliver P fromPeer ms (handleIncomingStream P fromPeer m n)"

definition transmit :: "Platform \<Rightarrow> string \<Rightarrow> string \<Rightarrow> Node \<Rightarrow> Node \<Rightarrow> Node \<times> Node" where
  "transmit P sender receiver S R =
     (S\<lparr>outbox := []\<rparr>, deliver P sender (addressedTo receiver (outbox S)) R)"

text \<open>
  One sync exchange between process \<open>A\<close>, which \<open>B\<close> knows as peer \<open>a\<close>, and process \<open>B\<close>,
  which \<open>A\<close> knows as peer \<open>b\<close>, started by \<open>A\<close> on connecting, with no earlier message
  under way. The transmissions carry, in turn: the \<^verbatim>\<open>sync-request\<close>; the
  \<^verbatim>\<open>sync-response\<close> and the event requests of \<open>B\<close>; the event requests and event responses of
  \<open>A\<close>; the event responses of \<open>B\<close> and what \<open>B\<close> rebroadcasts; what \<open>A\<close> rebroadcasts.
\<close>

definition syncExchange :: "Platform \<Rightarrow> string \<Rightarrow> string \<Rightarrow> Node \<Rightarrow> Node \<Rightarrow> Node \<times> Node" where
  "syncExchange P a b A B =
     (let A0 = syncWithPeer b (A\<lparr>outbox := []\<rparr>);
          B0 = B\<lparr>outbox := []\<rparr>;
          (A1, B1) = transmit P a b A0 B0;
          (B2, A2) = transmit P b a B1 A1;
          (A3, B3) = transmit P a b A2 B2;
          (B4, A4) = transmit P b a B3 A3;
          (A5, B5) = transmit P a b A4 B4
      in (A5, B5))"

text \<open>The events a message carries, the ids a process has stored, the property that every id
  of the seen set is stored, and the property that the events a process stores, queues and
  has sent all belong to a given set.\<close>

fun msgEvents :: "GossipMessage \<Rightarrow> Event list" where
  "msgEvents (EventResponse es) = es"
| "msgEvents (NewEvent e) = [e]"
| "msgEvents (SyncRequest ids) = []"
| "msgEvents (SyncResponse ids1 ids2) = []"
| "msgEvents (EventRequest ids) = []"

definition idsOf :: "Node \<Rightarrow> string set" where
  "idsOf n = id' ` set (events (db n))"

definition seenStored :: "Node \<Rightarrow> bool" where
  "seenStored n = (set (seenEventIds n) \<subseteq> idsOf n)"

definition outEvents :: "(string \<times> GossipMessage) list \<Rightarrow> Event set" where
  "outEvents out = set (concat (map (\<lambda>pm. msgEvents (snd pm)) out))"

definition within :: "Event set \<Rightarrow> Node \<Rightarrow> bool" where
  "within E n =
     (set (events (db n)) \<subseteq> E \<and> set (eventQueue n) \<subseteq> E \<and> outEvents (outbox n) \<subseteq> E)"

section \<open>Follow system (follow.ts)\<close>

record FollowSystem =
  myPublicKey :: bytes

text \<open>\<^verbatim>\<open>follow\<close> and \<^verbatim>\<open>unfollow\<close> return the event they created and the process after
  the call.\<close>

definition follow ::
  "Platform \<Rightarrow> int \<Rightarrow> FollowSystem \<Rightarrow> bytes \<Rightarrow> bytes \<Rightarrow> string option \<Rightarrow> Node \<Rightarrow> Event \<times> Node" where
  "follow P now fs targetPublicKey myPrivateKey encryptionPublicKeyBase64 n =
     (let followEvent = createFollowEvent P now targetPublicKey (myPublicKey fs) myPrivateKey
                          encryptionPublicKeyBase64;
          n1 = n\<lparr>db := storeFollow followEvent (db n)\<rparr>;
          n2 = broadcastEvent followEvent n1
      in (followEvent, n2))"

definition unfollow ::
  "Platform \<Rightarrow> int \<Rightarrow> FollowSystem \<Rightarrow> bytes \<Rightarrow> bytes \<Rightarrow> Node \<Rightarrow> Event \<times> Node" where
  "unfollow P now fs targetPublicKey myPrivateKey n =
     (let unfollowEvent = createUnfollowEvent P now targetPublicKey (myPublicKey fs) myPrivateKey;
          n1 = broadcastEvent unfollowEvent n
      in (unfollowEvent, n1))"

definition checkFollowing :: "Platform \<Rightarrow> FollowSystem \<Rightarrow> bytes \<Rightarrow> DB \<Rightarrow> bool" where
  "checkFollowing P fs targetPublicKey d =
     (let myPublicKeyStr = publicKeyToString P (myPublicKey fs);
          targetPublicKeyStr = publicKeyToString P targetPublicKey
      in isFollowing d myPublicKeyStr targetPublicKeyStr)"

text \<open>The loop of \<^verbatim>\<open>getFollowing\<close> over the records sorted by ascending timestamp, on the
  pair of sets \<^verbatim>\<open>following\<close> and \<^verbatim>\<open>unfollowed\<close>. A member of the sets is the
  \<^verbatim>\<open>content.target\<close> of a record, \<^const>\<open>None\<close> where the record has none.\<close>

fun getFollowing_loop ::
  "Event list \<Rightarrow> string option list \<times> string option list \<Rightarrow> string option list \<times> string option list" where
  "getFollowing_loop [] acc = acc"
| "getFollowing_loop (f # rest) (following, unfollowed) =
     (if type f = ''follow''
      then getFollowing_loop rest
             (set_add (target (content f)) following, set_delete (target (content f)) unfollowed)
      else if type f = ''unfollow''
      then getFollowing_loop rest
             (set_delete (target (content f)) following, set_add (target (content f)) unfollowed)
      else getFollowing_loop rest (following, unfollowed))"

definition getFollowing :: "Platform \<Rightarrow> FollowSystem \<Rightarrow> DB \<Rightarrow> string option list" where
  "getFollowing P fs d =
     (let myPublicKeyStr = publicKeyToString P (myPublicKey fs);
          fls = getFollowsByAuthor d myPublicKeyStr;
          sortedFollows = sortAsc timestamp fls
      in fst (getFollowing_loop sortedFollows ([], [])))"

section \<open>Feed engine (feed.ts)\<close>

record FeedItem =
  event :: Event
  author' :: string
  timestamp' :: int

definition toFeedItem :: "Event \<Rightarrow> FeedItem" where
  "toFeedItem e = \<lparr>event = e, author' = author e, timestamp' = timestamp e\<rparr>"

text \<open>The fields of a \<^verbatim>\<open>FeedEngine\<close> that hold feed data; the subscribers, which are only
  handed copies of \<^verbatim>\<open>getFeedItems()\<close>, and \<^verbatim>\<open>lastUpdateTime\<close> are left out.\<close>

record FeedEngine =
  followSystem :: FollowSystem
  myPublicKey' :: bytes
  feedItems :: "FeedItem list"
  topicFilter :: "string option"
  topicFeedItems :: "FeedItem list"

definition newFeedEngine :: "FollowSystem \<Rightarrow> bytes \<Rightarrow> FeedEngine" where
  "newFeedEngine fs key =
     \<lparr>followSystem = fs, myPublicKey' = key, feedItems = [], topicFilter = None,
      topicFeedItems = []\<rparr>"

text \<open>A string or \<^verbatim>\<open>null\<close> used as a condition.\<close>

definition truthy :: "string option \<Rightarrow> bool" where
  "truthy s = (case s of None \<Rightarrow> False | Some t \<Rightarrow> t \<noteq> [])"

text \<open>\<^verbatim>\<open>refresh\<close>: an author that is \<^verbatim>\<open>undefined\<close> makes \<^verbatim>\<open>getEventsByAuthor\<close> throw,
  which the loop catches and logs; that author adds no post.\<close>

definition refresh :: "Platform \<Rightarrow> DB \<Rightarrow> FeedEngine \<Rightarrow> FeedEngine" where
  "refresh P d fe =
     (let following = getFollowing P (followSystem fe) d;
          myPublicKeyStr = publicKeyToString P (myPublicKey' fe);
          authors = newSet (Some myPublicKeyStr # following);
          allPosts = concat (map (\<lambda>a. case a of None \<Rightarrow> []
                        | Some au \<Rightarrow> filter (\<lambda>e. type e = ''post'') (getEventsByAuthor d au None))
                      authors)
      in fe\<lparr>feedItems := sortDesc timestamp' (map toFeedItem allPosts)\<rparr>)"

definition addEvent :: "Platform \<Rightarrow> DB \<Rightarrow> Event \<Rightarrow> FeedEngine \<Rightarrow> FeedEngine" where
  "addEvent P d ev fe =
     (if type ev \<noteq> ''post'' then fe
      else let tpc = toLowerCase (trim (case topic (content ev) of None \<Rightarrow> ''general'' | Some t \<Rightarrow> t));
               myPublicKeyStr = publicKeyToString P (myPublicKey' fe);
               following = getFollowing P (followSystem fe) d;
               forHome = (author ev = myPublicKeyStr \<or> Some (author ev) \<in> set following);
               fe1 = (if forHome \<and> \<not> list_ex (\<lambda>item. id' (event item) = id' ev) (feedItems fe)
                      then fe\<lparr>feedItems := sortDesc timestamp' (feedItems fe @ [toFeedItem ev])\<rparr>
                      else fe)
           in if truthy (topicFilter fe1)
                 \<and> tpc = toLowerCase (trim (case topicFilter fe1 of None \<Rightarrow> [] | Some f \<Rightarrow> f))
                 \<and> \<not> list_ex (\<lambda>item. id' (event item) = id' ev) (topicFeedItems fe1)
              then fe1\<lparr>topicFeedItems := toFeedItem ev # topicFeedItems fe1\<rparr>
              else fe1)"

definition setTopicFilter :: "string option \<Rightarrow> FeedEngine \<Rightarrow> FeedEngine" where
  "setTopicFilter tpc fe =
     fe\<lparr>topicFilter := (case tpc of None \<Rightarrow> None
                         | Some t \<Rightarrow> if trim t = [] then None else Some (trim t))\<rparr>"

definition refreshTopicFeed :: "DB \<Rightarrow> string \<Rightarrow> FeedEngine \<Rightarrow> FeedEngine" where
  "refreshTopicFeed d tpc fe = fe\<lparr>topicFeedItems := map toFeedItem (getPostsByTopic d tpc 100)\<rparr>"

definition getFeedItems :: "FeedEngine \<Rightarrow> nat option \<Rightarrow> FeedItem list" where
  "getFeedItems fe limit =
     (let items = (if truthy (topicFilter fe) then topicFeedItems fe else feedItems fe)
      in case limit of None \<Rightarrow> items | Some l \<Rightarrow> if l = 0 then items else slice0 l items)"

text \<open>The four mutating operations, each with the database as it is when the operation
  runs, and a run of them from a given engine.\<close>

datatype FeedOp =
    Refresh DB
  | AddEvent DB Event
  | RefreshTopicFeed DB string
  | SetTopicFilter "string option"

fun applyOp :: "Platform \<Rightarrow> FeedOp \<Rightarrow> FeedEngine \<Rightarrow> FeedEngine" where
  "applyOp P (Refresh d) fe = refresh P d fe"
| "applyOp P (AddEvent d ev) fe = addEvent P d ev fe"
| "applyOp P (RefreshTopicFeed d tpc) fe = refreshTopicFeed d tpc fe"
| "applyOp P (SetTopicFilter tpc) fe = setTopicFilter tpc fe"

fun runOps :: "Platform \<Rightarrow> FeedOp list \<Rightarrow> FeedEngine \<Rightarrow> FeedEngine" where
  "runOps P [] fe = fe"
| "runOps P (x # xs) fe = runOps P xs (applyOp P x fe)"

definition nonIncreasing :: "int list \<Rightarrow> bool" where
  "nonIncreasing ts = sorted_wrt (\<lambda>a b. a \<ge> b) ts"

text \<open>\<^verbatim>\<open>addEvent\<close> keeps the topic feed newest first when it leaves the topic feed as it is,
  or prepends a post that is not older than the feed's current head. A run of operations keeps
  it so when each of its \<^verbatim>\<open>addEvent\<close> calls does, in the engine it is applied to.\<close>

definition prependsNewest :: "Platform \<Rightarrow> DB \<Rightarrow> Event \<Rightarrow> FeedEngine \<Rightarrow> bool" where
  "prependsNewest P d ev fe =
     (topicFeedItems (addEvent P d ev fe) = topicFeedItems fe
      \<or> (case topicFeedItems fe of [] \<Rightarrow> True | h # rest \<Rightarrow> timestamp' h \<le> timestamp ev))"

fun opPrependsNewest :: "Platform \<Rightarrow> FeedOp \<Rightarrow> FeedEngine \<Rightarrow> bool" where
  "opPrependsNewest P (AddEvent d ev) fe = prependsNewest P d ev fe"
| "opPrependsNewest P x fe = True"

fun opsPrependNewest :: "Platform \<Rightarrow> FeedOp list \<Rightarrow> FeedEngine \<Rightarrow> bool" where
  "opsPrependNewest P [] fe = True"
| "opsPrependNewest P (x # xs) fe =
     (opPrependsNewest P x fe \<and> opsPrependNewest P xs (applyOp P x fe))"

section \<open>Sample data\<close>

text \<open>
  A small platform on which the definitions can be run: the hash of a string is its length and
  the sum of its character codes, a content object is written as its texts one after the other,
  a signature is the key followed by the message, which the same key verifies, and base64 is the
  string of the bytes. It stands in for the real primitives only where a statement is checked
  on concrete data.
\<close>

definition byteOfChar :: "char \<Rightarrow> 8 word" where
  "byteOfChar c = of_nat (of_char c)"

definition charOfByte :: "8 word \<Rightarrow> char" where
  "charOfByte b = char_of (unat b)"

definition optStr :: "string option \<Rightarrow> string" where
  "optStr s = (case s of None \<Rightarrow> [] | Some t \<Rightarrow> t)"

definition sampleStringify :: "Content \<Rightarrow> string" where
  "sampleStringify c =
     optStr (topic c) @ optStr (text' c) @ optStr (replyTo c) @ optStr (encrypted c) @
     optStr (target c) @ optStr (encryptionPublicKey c) @ optStr (displayName c) @
     optStr (username c) @ optStr (bio c)"

definition samplePlatform :: Platform where
  "samplePlatform = \<lparr>
     sha256 = (\<lambda>s. [of_nat (length s), of_nat (sum_list (map of_char s))]),
     stringify_event = (\<lambda>ty au ts c. ty @ au @ replicate (nat ts) CHR ''.'' @ sampleStringify c),
     stringify_content = sampleStringify,
     ed25519_sign = (\<lambda>m k. k @ map byteOfChar m),
     ed25519_verify = (\<lambda>sg m k. Some (sg = k @ map byteOfChar m)),
     btoa = map charOfByte,
     atob = (\<lambda>s. Some (map byteOfChar s))\<rparr>"

text \<open>Two users, whose public and private keys coincide on the sample platform.\<close>

definition aliceKey :: bytes where
  "aliceKey = [65]"

definition bobKey :: bytes where
  "bobKey = [66]"

definition samplePost :: Event where
  "samplePost = createPostEvent samplePlatform 1 ''hello'' aliceKey aliceKey None None None (Some ''tech'')"

definition sampleFollow :: Event where
  "sampleFollow = createFollowEvent samplePlatform 2 bobKey aliceKey aliceKey None"

definition sampleNode :: Node where
  "sampleNode = \<lparr>db = emptyDB, seenEventIds = [], eventQueue = [], processingQueue = False,
     connectedPeers = [''peerB''], outbox = []\<rparr>"

text \<open>A follows store holding a Follow of B by A at time 1 and an Unfollow at time 2.\<close>

definition sampleFollowsDB :: DB where
  "sampleFollowsDB =
     storeFollow \<lparr>id' = ''2'', type = ''unfollow'', author = ''A'', timestamp = 2,
                  signature = ''s'', content = emptyContent\<lparr>target := Some ''B''\<rparr>\<rparr>
       (storeFollow \<lparr>id' = ''1'', type = ''follow'', author = ''A'', timestamp = 1,
                     signature = ''s'', content = emptyContent\<lparr>target := Some ''B''\<rparr>\<rparr>
          emptyDB)"

text \<open>Alice follows Bob at time 1 and unfollows him at time 2.\<close>

definition sampleAfterFollow :: Node where
  "sampleAfterFollow =
     snd (follow samplePlatform 1 \<lparr>myPublicKey = aliceKey\<rparr> bobKey aliceKey None sampleNode)"

definition sampleAfterUnfollow :: Node where
  "sampleAfterUnfollow =
     snd (unfollow samplePlatform 2 \<lparr>myPublicKey = aliceKey\<rparr> bobKey aliceKey sampleAfterFollow)"

text \<open>Two Profile events of Alice, the one with the later timestamp stored first.\<close>

definition sampleProfileNew :: Event where
  "sampleProfileNew =
     createProfileEvent samplePlatform 2 aliceKey aliceKey (emptyContent\<lparr>displayName := Some ''new''\<rparr>)"

definition sampleProfileOld :: Event where
  "sampleProfileOld =
     createProfileEvent samplePlatform 1 aliceKey aliceKey (emptyContent\<lparr>displayName := Some ''old''\<rparr>)"

definition sampleProfilesDB :: DB where
  "sampleProfilesDB = storeEventSeq [sampleProfileNew, sampleProfileOld] emptyDB"

text \<open>Bob's feed engine with the topic filter \<open>tech\<close>: the topic feed is loaded from a store
  that holds Alice's post of time 2, then her post of time 1 arrives; and the same with the two
  posts exchanged.\<close>

definition samplePostLater :: Event where
  "samplePostLater =
     createPostEvent samplePlatform 2 ''second'' aliceKey aliceKey None None None (Some ''tech'')"

definition sampleFeedOlderArrives :: FeedEngine where
  "sampleFeedOlderArrives =
     runOps samplePlatform
       [SetTopicFilter (Some ''tech''),
        RefreshTopicFeed (storeEvent samplePostLater emptyDB) ''tech'',
        AddEvent (storeEvent samplePostLater emptyDB) samplePost]
       (newFeedEngine \<lparr>myPublicKey = bobKey\<rparr> bobKey)"

definition sampleFeedOps :: "FeedOp list" where
  "sampleFeedOps =
     [SetTopicFilter (Some ''tech''),
      RefreshTopicFeed (storeEvent samplePost emptyDB) ''tech'',
      AddEvent (storeEvent samplePost emptyDB) samplePostLater]"

text \<open>Two started processes with one event each: Alice's holds her post, Bob's holds his
  Follow of Alice.\<close>

definition sampleFollowByBob :: Event where
  "sampleFollowByBob = createFollowEvent samplePlatform 3 aliceKey bobKey bobKey None"

definition sampleNodeA :: Node where
  "sampleNodeA = start (sampleNode\<lparr>db := storeEvent samplePost emptyDB\<rparr>)"

definition sampleNodeB :: Node where
  "sampleNodeB =
     start (sampleNode\<lparr>db := storeEvent sampleFollowByBob emptyDB, connectedPeers := [''peerA'']\<rparr>)"

definition sampleExchange :: "Node \<times> Node" where
  "sampleExchange = syncExchange samplePlatform ''peerA'' ''peerB'' sampleNodeA sampleNodeB"

text \<open>The same exchange with Alice's store holding a Profile event of hers instead.\<close>

definition sampleNodeP :: Node where
  "sampleNodeP = start (sampleNode\<lparr>db := storeEvent sampleProfileNew emptyDB\<rparr>)"

definition sampleExchangeP :: "Node \<times> Node" where
  "sampleExchangeP = syncExchange samplePlatform ''peerA'' ''peerB'' sampleNodeP sampleNodeB"

section \<open>What the specification says of the profile projection\<close>

text \<open>
  The row the specification describes for an author: that of the Profile event with the greatest
  timestamp among the author's Profile events in \<^verbatim>\<open>events\<close>. It is stated here to be compared
  with the row \<^verbatim>\<open>storeEvent\<close> leaves in \<^verbatim>\<open>profiles\<close>.
\<close>

fun spec_latest :: "Event \<Rightarrow> Event list \<Rightarrow> Event" where
  "spec_latest best [] = best"
| "spec_latest best (e # es) = spec_latest (if timestamp best < timestamp e then e else best) es"

definition spec_profileRow :: "Event list \<Rightarrow> string \<Rightarrow> ProfileRow option" where
  "spec_profileRow evs a =
     (case filter (\<lambda>e. type e = ''profile'' \<and> author e = a) evs of
        [] \<Rightarrow> None
      | p # ps \<Rightarrow> Some (profileRow (spec_latest p ps)))"

section \<open>Properties\<close>

subsection \<open>Stores and sets\<close>

lemma put_mem: "v \<in> set (put k v xs)"
  by (induction xs) auto

lemma put_keys: "set (map k (put k v xs)) = insert (k v) (set (map k xs))"
  by (induction xs) auto

lemma set_set_add: "set (set_add x s) = insert x (set s)"
  by (auto simp: set_add_def)

lemma set_newSet_aux: "set (foldl (\<lambda>s x. set_add x s) acc xs) = set acc \<union> set xs"
  by (induction xs arbitrary: acc) (auto simp: set_set_add)

lemma set_newSet: "set (newSet xs) = set xs"
  by (simp add: newSet_def set_newSet_aux)

lemma set_getAllEventIds: "set (getAllEventIds d) = id' ` set (events d)"
  by (simp add: getAllEventIds_def set_newSet)

lemma hasEvent_iff: "hasEvent d i \<longleftrightarrow> i \<in> id' ` set (events d)"
  by (auto simp: hasEvent_def filter_empty_conv)

lemma events_storeEvent: "events (storeEvent e d) = put id' e (events d)"
  by (simp add: storeEvent_def Let_def)

lemma follows_storeEvent: "follows (storeEvent e d) = follows d"
  by (simp add: storeEvent_def Let_def)

lemma hasEvent_storeEvent: "hasEvent (storeEvent e d) i \<longleftrightarrow> i = id' e \<or> hasEvent d i"
proof -
  have "id' ` set (put id' e (events d)) = insert (id' e) (id' ` set (events d))"
    using put_keys [of id' e "events d"] by simp
  then show ?thesis
    by (simp add: hasEvent_iff events_storeEvent)
qed

subsection \<open>What sending leaves alone\<close>

lemma sendToPeers_fields:
  "db (sendToPeers ps m n) = db n"
  "seenEventIds (sendToPeers ps m n) = seenEventIds n"
  "eventQueue (sendToPeers ps m n) = eventQueue n"
  "processingQueue (sendToPeers ps m n) = processingQueue n"
  "connectedPeers (sendToPeers ps m n) = connectedPeers n"
  by (induction ps arbitrary: n) (simp_all add: sendMessage_def)

lemma processEventQueue_loop_fields:
  "db (processEventQueue_loop q n) = db n"
  "seenEventIds (processEventQueue_loop q n) = seenEventIds n"
  "connectedPeers (processEventQueue_loop q n) = connectedPeers n"
  by (induction q arbitrary: n) (simp_all add: sendToPeers_fields)

lemma processEventQueue_fields:
  "db (processEventQueue n) = db n"
  "seenEventIds (processEventQueue n) = seenEventIds n"
  "connectedPeers (processEventQueue n) = connectedPeers n"
  by (simp_all add: processEventQueue_def processEventQueue_loop_fields)

lemma broadcastEvent_db: "db (broadcastEvent e n) = storeEvent e (db n)"
  by (simp add: broadcastEvent_def Let_def sendToPeers_fields)

subsection \<open>Validation\<close>

text \<open>
  Claim C4 says that \<^verbatim>\<open>isValidEvent\<close> accepts every well-formed, correctly signed event of
  the four known types, a Profile event among them. The code tests the type against the list
  \<^verbatim>\<open>['post', 'follow', 'unfollow']\<close>: an event of type \<^verbatim>\<open>profile\<close> is rejected whatever
  its fields and its signature are, and so is every event \<^verbatim>\<open>createProfileEvent\<close> returns.
\<close>

theorem isValidEvent_rejects_profile:
  "isValidEvent P (e\<lparr>type := ''profile''\<rparr>) = Inr False
   \<and> isValidEvent P (createProfileEvent P now authorPublicKey authorPrivateKey c) = Inr False"
  by (simp add: isValidEvent_def createProfileEvent_def signEvent_def Let_def)


subsection \<open>Inbound events\<close>

lemma processIncomingEvent_valid:
  assumes "id' e \<notin> set (seenEventIds n)" "isValidEvent P e = Inr True"
  shows "\<exists>n'. processIncomingEvent P e fromPeer n = Inr n'
           \<and> id' e \<in> set (seenEventIds n') \<and> hasEvent (db n') (id' e)"
  using assms
  by (simp add: processIncomingEvent_def Let_def set_set_add processEventQueue_fields
        hasEvent_storeEvent)

lemma sample_tampered_invalid:
  "isValidEvent samplePlatform (sampleFollow\<lparr>signature := ''zz''\<rparr>) = Inr False"
  by code_simp

lemma sample_follow_valid: "isValidEvent samplePlatform sampleFollow = Inr True"
  by code_simp


text \<open>
  Claim C8: an inbound event whose id is not in the seen set and for which
  \<^verbatim>\<open>isValidEvent\<close> returns false leaves the process as it was: nothing is stored, nothing is
  queued for rebroadcast or sent, and the id is not marked seen. A later event with the same id
  that is valid is therefore still taken: after it the id is seen and stored.
\<close>

theorem invalid_event_leaves_state:
  assumes "id' e \<notin> set (seenEventIds n)" and "isValidEvent P e = Inr False"
  shows "processIncomingEvent P e fromPeer n = Inr n
         \<and> (\<forall>e'. id' e' = id' e \<and> isValidEvent P e' = Inr True \<longrightarrow>
               (\<exists>n'. processIncomingEvent P e' fromPeer n = Inr n'
                  \<and> id' e \<in> set (seenEventIds n') \<and> hasEvent (db n') (id' e)))"
proof
  show "processIncomingEvent P e fromPeer n = Inr n"
    using assms by (simp add: processIncomingEvent_def)
next
  show "\<forall>e'. id' e' = id' e \<and> isValidEvent P e' = Inr True \<longrightarrow>
               (\<exists>n'. processIncomingEvent P e' fromPeer n = Inr n'
                  \<and> id' e \<in> set (seenEventIds n') \<and> hasEvent (db n') (id' e))"
  proof (intro allI impI)
    fix e' assume h: "id' e' = id' e \<and> isValidEvent P e' = Inr True"
    then have "id' e' \<notin> set (seenEventIds n)" using assms(1) by simp
    from processIncomingEvent_valid [OF this, of P fromPeer] h
    show "\<exists>n'. processIncomingEvent P e' fromPeer n = Inr n'
                  \<and> id' e \<in> set (seenEventIds n') \<and> hasEvent (db n') (id' e)"
      by simp
  qed
qed

theorem invalid_event_leaves_state_witness:
  "processIncomingEvent samplePlatform (sampleFollow\<lparr>signature := ''zz''\<rparr>) ''peerB'' sampleNode
     = Inr sampleNode
   \<and> (\<exists>n'. processIncomingEvent samplePlatform sampleFollow ''peerB'' sampleNode = Inr n'
         \<and> id' sampleFollow \<in> set (seenEventIds n') \<and> hasEvent (db n') (id' sampleFollow))"
proof -
  have unseen: "id' (sampleFollow\<lparr>signature := ''zz''\<rparr>) \<notin> set (seenEventIds sampleNode)"
    by (simp add: sampleNode_def)
  note th = invalid_event_leaves_state [OF unseen sample_tampered_invalid, of "''peerB''"]
  from th have a: "processIncomingEvent samplePlatform (sampleFollow\<lparr>signature := ''zz''\<rparr>) ''peerB'' sampleNode
     = Inr sampleNode" by simp
  from th have "id' sampleFollow = id' (sampleFollow\<lparr>signature := ''zz''\<rparr>) \<and> isValidEvent samplePlatform sampleFollow = Inr True \<longrightarrow>
               (\<exists>n'. processIncomingEvent samplePlatform sampleFollow ''peerB'' sampleNode = Inr n'
                  \<and> id' (sampleFollow\<lparr>signature := ''zz''\<rparr>) \<in> set (seenEventIds n') \<and> hasEvent (db n') (id' (sampleFollow\<lparr>signature := ''zz''\<rparr>)))"
    by blast
  with sample_follow_valid have b: "\<exists>n'. processIncomingEvent samplePlatform sampleFollow ''peerB'' sampleNode = Inr n'
         \<and> id' sampleFollow \<in> set (seenEventIds n') \<and> hasEvent (db n') (id' sampleFollow)"
    by simp
  from a b show ?thesis by simp
qed

subsection \<open>Batched event requests\<close>

lemma upt_Suc_shift: "[0..<Suc c] = 0 # map Suc [0..<c]"
proof -
  have "[0..<Suc c] = 0 # [Suc 0..<Suc c]"
    by (rule upt_conv_Cons) simp
  then show ?thesis
    by (simp only: map_Suc_upt)
qed

lemma batch_count_step:
  assumes "i < (l::nat)"
  shows "(l - i + 99) div 100 = Suc ((l - (i + 100) + 99) div 100)"
proof (cases "100 \<le> l - i")
  case True
  define x where "x = l - (i + 100) + 99"
  have "l - i + 99 = x + 100"
    using True by (simp add: x_def)
  then have "(l - i + 99) div 100 = (x + 100) div 100"
    by simp
  also have "\<dots> = Suc (x div 100)"
    by simp
  finally show ?thesis
    by (simp add: x_def)
next
  case False
  define y where "y = l - i + 99"
  have "100 * 1 \<le> y" "y < 100 * Suc 1"
    using False assms by (simp_all add: y_def)
  then have "y div 100 = 1"
    by (rule div_nat_eqI)
  moreover have "l - (i + 100) = 0"
    using False by simp
  ultimately show ?thesis
    by (simp add: y_def)
qed

lemma batch_index_bound:
  assumes "k < ((l::nat) + 99) div 100"
  shows "k * 100 < l"
proof (rule ccontr)
  assume "\<not> k * 100 < l"
  then have "l + 99 < Suc k * 100"
    by simp
  then have "(l + 99) div 100 < Suc k"
    by (rule less_mult_imp_div_less)
  with assms show False
    by simp
qed

lemma batches_cover: "(l::nat) \<le> (l + 99) div 100 * 100"
proof -
  define d where "d = (l + 99) div 100 * 100"
  define m where "m = (l + 99) mod 100"
  have "d + m = l + 99"
    by (simp add: d_def m_def)
  moreover have "m < 100"
    by (simp add: m_def)
  ultimately have "l \<le> d"
    by linarith
  then show ?thesis
    by (simp add: d_def)
qed

lemma requestEvents_loop_eq:
  "requestEvents_loop i p ids n =
     n\<lparr>outbox := outbox n @
        map (\<lambda>k. (p, EventRequest (slice ids (i + k * 100) (i + k * 100 + 100))))
          [0..<(length ids - i + 99) div 100]\<rparr>"
proof (induction i p ids n rule: requestEvents_loop.induct)
  case (1 i p ids n)
  show ?case
  proof (cases "i < length ids")
    case True
    have cnt: "(length ids - i + 99) div 100 = Suc ((length ids - (i + 100) + 99) div 100)"
      using True by (rule batch_count_step)
    have "requestEvents_loop i p ids n =
            requestEvents_loop (i + 100) p ids
              (sendMessage p (EventRequest (slice ids i (i + 100))) n)"
      using True by (subst requestEvents_loop.simps) (simp add: MAX_BATCH_SIZE_def)
    also have "\<dots> = (sendMessage p (EventRequest (slice ids i (i + 100))) n)
        \<lparr>outbox := outbox (sendMessage p (EventRequest (slice ids i (i + 100))) n) @
           map (\<lambda>k. (p, EventRequest (slice ids (i + 100 + k * 100) (i + 100 + k * 100 + 100))))
             [0..<(length ids - (i + 100) + 99) div 100]\<rparr>"
      using "1.IH" [OF True refl] by (simp add: MAX_BATCH_SIZE_def)
    finally have step: "requestEvents_loop i p ids n =
        n\<lparr>outbox := outbox n @ (p, EventRequest (slice ids i (i + 100))) #
           map (\<lambda>k. (p, EventRequest (slice ids (i + 100 + k * 100) (i + 100 + k * 100 + 100))))
             [0..<(length ids - (i + 100) + 99) div 100]\<rparr>"
      by (simp add: sendMessage_def)
    have shift: "i + Suc k * 100 = i + 100 + k * 100" for k
      by simp
    show ?thesis
      unfolding cnt upt_Suc_shift step
      by (simp only: list.map map_map comp_def shift mult_zero_left add_0_right)
  next
    case False
    then have "(length ids - i + 99) div 100 = 0" by simp
    with False show ?thesis
      by (subst requestEvents_loop.simps) simp
  qed
qed

lemma concat_slices:
  "concat (map (\<lambda>k. slice xs (k * m) (k * m + m)) [0..<c]) = take (c * m) xs"
proof (induction c)
  case 0
  then show ?case by simp
next
  case (Suc c)
  have "take (c * m + m) xs = take (c * m) xs @ take m (drop (c * m) xs)"
    by (simp add: take_add)
  with Suc show ?case
    by (simp add: slice_def add.commute)
qed

lemma requestEvents_loop_fields:
  "db (requestEvents_loop i p ids n) = db n"
  "seenEventIds (requestEvents_loop i p ids n) = seenEventIds n"
  "eventQueue (requestEvents_loop i p ids n) = eventQueue n"
  "processingQueue (requestEvents_loop i p ids n) = processingQueue n"
  "connectedPeers (requestEvents_loop i p ids n) = connectedPeers n"
  by (simp_all add: requestEvents_loop_eq)

text \<open>
  Claim C9: \<^verbatim>\<open>requestEvents\<close> sends a list of \<open>n\<close> event ids to the peer as
  \<open>\<lceil>n / 100\<rceil>\<close> \<^verbatim>\<open>event-request\<close> messages and nothing else; every message carries at
  least one and at most 100 ids, and the batches, in the order sent, make up the list.
\<close>

theorem requestEvents_batches:
  "\<exists>bs. outbox (requestEvents peerId eventIds n) = outbox n @ map (\<lambda>b. (peerId, EventRequest b)) bs
     \<and> length bs = (length eventIds + 99) div 100
     \<and> (\<forall>b \<in> set bs. length b \<le> 100 \<and> b \<noteq> [])
     \<and> concat bs = eventIds"
proof -
  let ?c = "(length eventIds + 99) div 100"
  let ?bs = "map (\<lambda>k. slice eventIds (k * 100) (k * 100 + 100)) [0..<?c]"
  have "requestEvents peerId eventIds n =
          n\<lparr>outbox := outbox n @
            map (\<lambda>k. (peerId, EventRequest (slice eventIds (0 + k * 100) (0 + k * 100 + 100))))
              [0..<(length eventIds - 0 + 99) div 100]\<rparr>"
    unfolding requestEvents_def by (rule requestEvents_loop_eq)
  then have "outbox (requestEvents peerId eventIds n) = outbox n @ map (\<lambda>b. (peerId, EventRequest b)) ?bs"
    by (simp add: comp_def)
  moreover have "length ?bs = ?c" by simp
  moreover have "\<forall>b \<in> set ?bs. length b \<le> 100 \<and> b \<noteq> []"
  proof
    fix b assume "b \<in> set ?bs"
    then obtain k where k: "k < ?c" "b = slice eventIds (k * 100) (k * 100 + 100)" by auto
    from k(1) have "k * 100 < length eventIds" by (rule batch_index_bound)
    with k(2) show "length b \<le> 100 \<and> b \<noteq> []" by (auto simp: slice_def)
  qed
  moreover have "concat ?bs = eventIds"
  proof -
    have "length eventIds \<le> ?c * 100" by (rule batches_cover)
    then show ?thesis by (simp add: concat_slices)
  qed
  ultimately show ?thesis by blast
qed

theorem requestEvents_batches_witness:
  "\<exists>bs. outbox (requestEvents ''peerB'' [''a'', ''b'', ''c''] sampleNode)
          = outbox sampleNode @ map (\<lambda>b. (''peerB'', EventRequest b)) bs
     \<and> length bs = 1 \<and> concat bs = [''a'', ''b'', ''c'']"
proof -
  from requestEvents_batches [of "''peerB''" "[''a'', ''b'', ''c'']" sampleNode]
  obtain bs where a: "outbox (requestEvents ''peerB'' [''a'', ''b'', ''c''] sampleNode)
          = outbox sampleNode @ map (\<lambda>b. (''peerB'', EventRequest b)) bs"
     and b: "length bs = (length [''a'', ''b'', ''c''] + 99) div 100"
     and c: "concat bs = [''a'', ''b'', ''c'']"
    by blast
  from b have "length bs = 1" by simp
  with a c show ?thesis by blast
qed

subsection \<open>Gossip and the follows collection\<close>

lemma processIncomingEvent_follows:
  "processIncomingEvent P e p n = Inr n' \<Longrightarrow> follows (db n') = follows (db n)"
  by (auto simp: processIncomingEvent_def Let_def processEventQueue_fields follows_storeEvent
      split: if_splits sum.splits)

lemma handleEventResponse_follows:
  "follows (db (fst (handleEventResponse P p es n))) = follows (db n)"
  by (induction es arbitrary: n) (auto split: sum.splits dest: processIncomingEvent_follows)

lemma handleMessage_follows: "follows (db (fst (handleMessage P p m n))) = follows (db n)"
proof (cases m)
  case (SyncRequest ids)
  then show ?thesis
    by (simp add: handleSyncRequest_def Let_def requestEvents_def requestEvents_loop_fields
          sendMessage_def)
next
  case (SyncResponse a b)
  then show ?thesis
    by (simp add: handleSyncResponse_def requestEvents_def requestEvents_loop_fields)
next
  case (EventRequest ids)
  then show ?thesis by (simp add: handleEventRequest_def sendMessage_def)
next
  case (EventResponse es)
  then show ?thesis by (simp add: handleEventResponse_follows)
next
  case (NewEvent e)
  then show ?thesis
    by (auto simp: handleNewEvent_def split: sum.splits dest: processIncomingEvent_follows)
qed

text \<open>
  Claim C10: whatever message a peer sends, handling it leaves the \<^verbatim>\<open>follows\<close> collection
  as it was, so \<^verbatim>\<open>getFollowsByAuthor\<close>, \<^verbatim>\<open>getFollowersOf\<close> and \<^verbatim>\<open>isFollowing\<close>
  answer as before; a valid event that was not seen, a Follow or Unfollow event included, is
  written to the \<^verbatim>\<open>events\<close> collection only.
\<close>

theorem gossip_never_writes_follows:
  "follows (db (handleIncomingStream P peerId m n)) = follows (db n)
   \<and> getFollowsByAuthor (db (handleIncomingStream P peerId m n)) a = getFollowsByAuthor (db n) a
   \<and> getFollowersOf (db (handleIncomingStream P peerId m n)) a = getFollowersOf (db n) a
   \<and> isFollowing (db (handleIncomingStream P peerId m n)) a b = isFollowing (db n) a b
   \<and> (id' e \<notin> set (seenEventIds n) \<and> isValidEvent P e = Inr True \<longrightarrow>
        hasEvent (db (handleIncomingStream P peerId (NewEvent e) n)) (id' e)
        \<and> follows (db (handleIncomingStream P peerId (NewEvent e) n)) = follows (db n))"
proof -
  have f: "\<And>m. follows (db (handleIncomingStream P peerId m n)) = follows (db n)"
    by (simp add: handleIncomingStream_def handleMessage_follows)
  have "id' e \<notin> set (seenEventIds n) \<Longrightarrow> isValidEvent P e = Inr True \<Longrightarrow>
        hasEvent (db (handleIncomingStream P peerId (NewEvent e) n)) (id' e)"
    using processIncomingEvent_valid [of e n P peerId]
    by (auto simp: handleIncomingStream_def handleNewEvent_def)
  with f show ?thesis
    by (simp add: getFollowsByAuthor_def getFollowersOf_def isFollowing_def)
qed

theorem gossip_never_writes_follows_witness:
  "hasEvent (db (handleIncomingStream samplePlatform ''peerB'' (NewEvent sampleFollow) sampleNode))
     (id' sampleFollow)
   \<and> follows (db (handleIncomingStream samplePlatform ''peerB'' (NewEvent sampleFollow) sampleNode)) = []
   \<and> isFollowing (db (handleIncomingStream samplePlatform ''peerB'' (NewEvent sampleFollow) sampleNode))
       ''A'' ''B'' = False"
proof -
  have unseen: "id' sampleFollow \<notin> set (seenEventIds sampleNode)"
    by (simp add: sampleNode_def)
  have base: "follows (db sampleNode) = []" "isFollowing (db sampleNode) ''A'' ''B'' = False"
    by (simp_all add: sampleNode_def emptyDB_def isFollowing_def)
  from gossip_never_writes_follows [of samplePlatform "''peerB''" "NewEvent sampleFollow" sampleNode
      "''A''" "''B''" sampleFollow] unseen sample_follow_valid base
  show ?thesis by simp
qed

subsection \<open>Follow state\<close>

lemma isFollowing_cursor_mem:
  "e \<in> set xs \<Longrightarrow> target (content e) = Some b \<Longrightarrow> isFollowing_cursor xs b"
  by (induction xs) auto

lemma isFollowing_mem:
  "e \<in> set (follows d) \<Longrightarrow> author e = a \<Longrightarrow> target (content e) = Some b \<Longrightarrow> isFollowing d a b"
  unfolding isFollowing_def
  by (rule isFollowing_cursor_mem [of e]) auto

text \<open>
  Claim C1 says that after a Follow event at \<open>t1\<close> and an Unfollow event at \<open>t2 > t1\<close> for a
  pair are stored, \<^verbatim>\<open>isFollowing\<close> returns false. The code returns true as soon as one
  record of the follower in \<^verbatim>\<open>follows\<close> names the followee as its target, whatever the
  record's type and timestamp: with both events stored it returns true, for all timestamps.
\<close>

theorem isFollowing_ignores_unfollow:
  "isFollowing
     (storeFollow \<lparr>id' = i2, type = ''unfollow'', author = a, timestamp = t2, signature = s2,
                   content = emptyContent\<lparr>target := Some b\<rparr>\<rparr>
       (storeFollow \<lparr>id' = i1, type = ''follow'', author = a, timestamp = t1, signature = s1,
                     content = emptyContent\<lparr>target := Some b\<rparr>\<rparr> d))
     a b = True"
proof -
  let ?u = "\<lparr>id' = i2, type = ''unfollow'', author = a, timestamp = t2, signature = s2,
                   content = emptyContent\<lparr>target := Some b\<rparr>\<rparr>"
  have "?u \<in> set (follows (storeFollow ?u dd))" for dd
    by (simp add: storeFollow_def put_mem)
  then show ?thesis
    using isFollowing_mem [of ?u _ a b] by simp
qed

text \<open>On the same two records \<^verbatim>\<open>getFollowing\<close>, which replays by timestamp, reports
  nobody, and \<^verbatim>\<open>isFollowing\<close> reports that A follows B.\<close>

lemma getFollowing_resolves_unfollow:
  "getFollowing samplePlatform \<lparr>myPublicKey = aliceKey\<rparr> sampleFollowsDB = []"
  "isFollowing sampleFollowsDB ''A'' ''B'' = True"
  by code_simp+

text \<open>
  Claim C5 says that \<^verbatim>\<open>unfollow\<close> persists the Unfollow event in the local follow store,
  as \<^verbatim>\<open>follow\<close> does. The code of \<^verbatim>\<open>unfollow\<close> only broadcasts the event, which
  writes it to \<^verbatim>\<open>events\<close>: the \<^verbatim>\<open>follows\<close> collection, \<^verbatim>\<open>getFollowing\<close> and
  \<^verbatim>\<open>checkFollowing\<close> are the same after the call as before it.
\<close>

theorem unfollow_not_persisted:
  "follows (db (snd (unfollow P now fs targetPublicKey myPrivateKey n))) = follows (db n)
   \<and> getFollowing P fs (db (snd (unfollow P now fs targetPublicKey myPrivateKey n)))
       = getFollowing P fs (db n)
   \<and> checkFollowing P fs targetPublicKey (db (snd (unfollow P now fs targetPublicKey myPrivateKey n)))
       = checkFollowing P fs targetPublicKey (db n)"
  by (simp add: unfollow_def Let_def broadcastEvent_db follows_storeEvent getFollowing_def
        checkFollowing_def getFollowsByAuthor_def isFollowing_def)

text \<open>After Alice follows Bob and then unfollows him, she is still reported as following
  him.\<close>

lemma follow_then_unfollow_sample:
  "getFollowing samplePlatform \<lparr>myPublicKey = aliceKey\<rparr> (db sampleAfterUnfollow) = [Some ''B'']"
  "checkFollowing samplePlatform \<lparr>myPublicKey = aliceKey\<rparr> bobKey (db sampleAfterUnfollow) = True"
  by code_simp+

subsection \<open>Create and verify\<close>

lemma verifyEvent_signEvent:
  assumes "\<And>b. atob P (btoa P b) = Some b"
    and "\<And>m. ed25519_verify P (ed25519_sign P m authorPrivateKey) m authorPublicKey = Some True"
  shows "verifyEvent P (signEvent P ty (publicKeyToString P authorPublicKey) ts c authorPrivateKey)
           = Inr True"
  using assms
  by (simp add: verifyEvent_def signEvent_def Let_def publicKeyToString_def signMessage_def
        verifySignature_def)

lemma byteOfChar_charOfByte: "byteOfChar (charOfByte b) = b"
proof -
  have "unat b < 256"
    using unsigned_less [of b, where ?'a = nat] by simp
  then show ?thesis
    by (simp add: byteOfChar_def charOfByte_def)
qed

lemma sample_base64: "atob samplePlatform (btoa samplePlatform b) = Some b"
  by (simp add: samplePlatform_def comp_def byteOfChar_charOfByte)

lemma sample_keypair:
  "ed25519_verify samplePlatform (ed25519_sign samplePlatform m k) m k = Some True"
  by (simp add: samplePlatform_def)

text \<open>
  Claim C6: on a platform where \<^verbatim>\<open>atob\<close> inverts \<^verbatim>\<open>btoa\<close> and a signature made with
  the private key verifies under the public key, every event returned by
  \<^verbatim>\<open>createPostEvent\<close>, \<^verbatim>\<open>createFollowEvent\<close>, \<^verbatim>\<open>createUnfollowEvent\<close> and
  \<^verbatim>\<open>createProfileEvent\<close> passes \<^verbatim>\<open>verifyEvent\<close>, for all texts, topics, targets,
  profile contents and timestamps.
\<close>

theorem create_verify_roundtrip:
  assumes "\<And>b. atob P (btoa P b) = Some b"
    and "\<And>m. ed25519_verify P (ed25519_sign P m authorPrivateKey) m authorPublicKey = Some True"
  shows "verifyEvent P (createPostEvent P now txt authorPublicKey authorPrivateKey ments reply
                          encryptedPayload tpc) = Inr True
       \<and> verifyEvent P (createFollowEvent P now targetPublicKey authorPublicKey authorPrivateKey
                          encryptionPublicKeyBase64) = Inr True
       \<and> verifyEvent P (createUnfollowEvent P now targetPublicKey authorPublicKey authorPrivateKey)
            = Inr True
       \<and> verifyEvent P (createProfileEvent P now authorPublicKey authorPrivateKey c) = Inr True"
  unfolding createPostEvent_def createFollowEvent_def createUnfollowEvent_def
    createProfileEvent_def Let_def
  by (intro conjI verifyEvent_signEvent assms)

theorem create_verify_roundtrip_witness:
  "verifyEvent samplePlatform samplePost = Inr True
   \<and> verifyEvent samplePlatform sampleFollow = Inr True
   \<and> verifyEvent samplePlatform (createUnfollowEvent samplePlatform 3 bobKey aliceKey aliceKey) = Inr True
   \<and> verifyEvent samplePlatform sampleProfileNew = Inr True"
  unfolding samplePost_def sampleFollow_def sampleProfileNew_def
  using create_verify_roundtrip [of samplePlatform aliceKey aliceKey, OF sample_base64 sample_keypair]
  by blast

subsection \<open>Profile projection\<close>

lemma get_put: "get k i (put k v xs) = (if k v = i then Some v else get k i xs)"
  by (induction xs) auto

lemma profiles_storeEvent:
  "get author_p a (profiles (storeEvent e d)) =
     (if type e = ''profile'' \<and> author e = a then Some (profileRow e)
      else get author_p a (profiles d))"
  by (simp add: storeEvent_def Let_def get_put profileRow_def)

lemma storeEventSeq_snoc: "storeEventSeq (es @ [e]) d = storeEvent e (storeEventSeq es d)"
  by (simp add: storeEventSeq_def)

text \<open>
  Claim C3, as amended: after any sequence of \<^verbatim>\<open>storeEvent\<close> calls, the row of an author in
  the profile projection is that of the author's Profile event stored last in the sequence,
  whatever the timestamps; with no Profile event of the author in the sequence the row is as it
  was.
\<close>

theorem profile_projection_last_write_wins:
  "get author_p a (profiles (storeEventSeq es d)) =
     (case rev (filter (\<lambda>e. type e = ''profile'' \<and> author e = a) es) of
        [] \<Rightarrow> get author_p a (profiles d)
      | p # ps \<Rightarrow> Some (profileRow p))"
proof (induction es rule: rev_induct)
  case Nil
  then show ?case by (simp add: storeEventSeq_def)
next
  case (snoc e es)
  then show ?case
    by (simp add: storeEventSeq_snoc profiles_storeEvent)
qed

text \<open>
  Claim C3 as stated, that the row is that of the author's stored Profile event with the
  greatest timestamp, fails where the event with timestamp 2 is stored before the event with
  timestamp 1: the projection then shows the older event.
\<close>

theorem profile_projection_counterexample:
  "get author_p ''A'' (profiles sampleProfilesDB) \<noteq> spec_profileRow (events sampleProfilesDB) ''A''"
  by code_simp

lemma sample_profiles_rows:
  "map_option updatedAt (get author_p ''A'' (profiles sampleProfilesDB)) = Some 1"
  "map_option updatedAt (spec_profileRow (events sampleProfilesDB) ''A'') = Some 2"
  "getProfile sampleProfilesDB ''A'' = Some (Some ''old'', None, None)"
  by code_simp+

subsection \<open>Feed ordering\<close>

lemma nonIncreasing_sortDesc: "nonIncreasing (map ts (sortDesc ts xs))"
proof -
  have "sorted (map (\<lambda>x. - ts x) (sort_key (\<lambda>x. - ts x) xs))"
    by (rule sorted_sort_key)
  then show ?thesis
    by (simp add: nonIncreasing_def sortDesc_def sorted_map sorted_wrt_map)
qed

lemma nonIncreasing_take: "nonIncreasing (map ts xs) \<Longrightarrow> nonIncreasing (map ts (take l xs))"
  unfolding nonIncreasing_def take_map [symmetric] by (rule sorted_wrt_take)

lemma timestamp_toFeedItem: "map timestamp' (map toFeedItem xs) = map timestamp xs"
  by (simp add: toFeedItem_def comp_def)

lemma home_refresh: "nonIncreasing (map timestamp' (feedItems (refresh P d fe)))"
  by (simp add: refresh_def Let_def nonIncreasing_sortDesc)

lemma home_addEvent:
  "nonIncreasing (map timestamp' (feedItems fe)) \<Longrightarrow>
   nonIncreasing (map timestamp' (feedItems (addEvent P d ev fe)))"
  by (simp add: addEvent_def Let_def nonIncreasing_sortDesc)

lemma home_applyOp:
  "nonIncreasing (map timestamp' (feedItems fe)) \<Longrightarrow>
   nonIncreasing (map timestamp' (feedItems (applyOp P x fe)))"
  by (cases x) (simp_all add: home_refresh home_addEvent refreshTopicFeed_def setTopicFilter_def)

lemma home_runOps:
  "nonIncreasing (map timestamp' (feedItems fe)) \<Longrightarrow>
   nonIncreasing (map timestamp' (feedItems (runOps P ops fe)))"
  by (induction ops arbitrary: fe) (simp_all add: home_applyOp)

lemma getPostsByTopic_sorted: "nonIncreasing (map timestamp (getPostsByTopic d tpc l))"
  unfolding getPostsByTopic_def Let_def slice0_def
  by (rule nonIncreasing_take) (rule nonIncreasing_sortDesc)

lemma topic_refreshTopicFeed:
  "nonIncreasing (map timestamp' (topicFeedItems (refreshTopicFeed d tpc fe)))"
proof -
  have "topicFeedItems (refreshTopicFeed d tpc fe) = map toFeedItem (getPostsByTopic d tpc 100)"
    by (simp add: refreshTopicFeed_def)
  then show ?thesis
    by (simp only: timestamp_toFeedItem getPostsByTopic_sorted)
qed

lemma nonIncreasing_Cons_head:
  assumes "nonIncreasing (map ts xs)" and "case xs of [] \<Rightarrow> True | h # rest \<Rightarrow> ts h \<le> t"
  shows "nonIncreasing (t # map ts xs)"
proof (cases xs)
  case Nil
  then show ?thesis by (simp add: nonIncreasing_def)
next
  case (Cons h rest)
  with assms have "ts h \<le> t" and "\<forall>y \<in> set (map ts rest). y \<le> ts h"
    by (auto simp: nonIncreasing_def)
  with assms Cons show ?thesis
    by (auto simp: nonIncreasing_def)
qed

lemma topic_addEvent_cases:
  "topicFeedItems (addEvent P d ev fe) = topicFeedItems fe
   \<or> topicFeedItems (addEvent P d ev fe) = toFeedItem ev # topicFeedItems fe"
  by (simp add: addEvent_def Let_def)

lemma topic_addEvent:
  assumes "nonIncreasing (map timestamp' (topicFeedItems fe))" and "prependsNewest P d ev fe"
  shows "nonIncreasing (map timestamp' (topicFeedItems (addEvent P d ev fe)))"
proof (cases "topicFeedItems (addEvent P d ev fe) = topicFeedItems fe")
  case True
  with assms(1) show ?thesis by simp
next
  case False
  with topic_addEvent_cases [of P d ev fe]
  have eq: "topicFeedItems (addEvent P d ev fe) = toFeedItem ev # topicFeedItems fe"
    by blast
  from False assms(2)
  have "case topicFeedItems fe of [] \<Rightarrow> True | h # rest \<Rightarrow> timestamp' h \<le> timestamp ev"
    by (simp add: prependsNewest_def)
  with assms(1) have "nonIncreasing (timestamp ev # map timestamp' (topicFeedItems fe))"
    by (rule nonIncreasing_Cons_head)
  then show ?thesis
    by (simp add: eq toFeedItem_def)
qed

lemma topic_applyOp:
  assumes "nonIncreasing (map timestamp' (topicFeedItems fe))" and "opPrependsNewest P x fe"
  shows "nonIncreasing (map timestamp' (topicFeedItems (applyOp P x fe)))"
  using assms
  by (cases x) (simp_all add: topic_addEvent topic_refreshTopicFeed refresh_def Let_def
      setTopicFilter_def)

lemma topic_runOps:
  "nonIncreasing (map timestamp' (topicFeedItems fe)) \<Longrightarrow> opsPrependNewest P ops fe \<Longrightarrow>
   nonIncreasing (map timestamp' (topicFeedItems (runOps P ops fe)))"
  by (induction ops arbitrary: fe) (simp_all add: topic_applyOp)

lemma getFeedItems_sorted:
  assumes "nonIncreasing (map timestamp' (feedItems fe))"
    and "nonIncreasing (map timestamp' (topicFeedItems fe))"
  shows "nonIncreasing (map timestamp' (getFeedItems fe limit))"
  using assms
  by (cases limit) (simp_all add: getFeedItems_def Let_def slice0_def nonIncreasing_take)

lemma sample_ops_in_order:
  "opsPrependNewest samplePlatform sampleFeedOps (newFeedEngine \<lparr>myPublicKey = bobKey\<rparr> bobKey)"
  by code_simp

lemma sample_feed_items:
  "map timestamp' (getFeedItems (runOps samplePlatform sampleFeedOps
      (newFeedEngine \<lparr>myPublicKey = bobKey\<rparr> bobKey)) None) = [2, 1]"
  by code_simp

text \<open>
  Claim C7, as amended: after any sequence of \<^verbatim>\<open>refresh\<close>, \<^verbatim>\<open>addEvent\<close>,
  \<^verbatim>\<open>refreshTopicFeed\<close> and \<^verbatim>\<open>setTopicFilter\<close> on a new engine the home feed is
  non-increasing by timestamp, and so is what \<^verbatim>\<open>getFeedItems\<close> returns, home feed or
  active topic feed, provided that every \<^verbatim>\<open>addEvent\<close> of the sequence that prepends a post
  to the topic feed prepends one that is not older than the topic feed's head.
\<close>

theorem feed_ordering:
  "nonIncreasing (map timestamp' (feedItems (runOps P ops (newFeedEngine fs key))))
   \<and> (opsPrependNewest P ops (newFeedEngine fs key) \<longrightarrow>
        nonIncreasing (map timestamp' (getFeedItems (runOps P ops (newFeedEngine fs key)) limit)))"
proof -
  have h: "nonIncreasing (map timestamp' (feedItems (newFeedEngine fs key)))"
    and t: "nonIncreasing (map timestamp' (topicFeedItems (newFeedEngine fs key)))"
    by (simp_all add: newFeedEngine_def nonIncreasing_def)
  from h have home: "nonIncreasing (map timestamp' (feedItems (runOps P ops (newFeedEngine fs key))))"
    by (rule home_runOps)
  moreover have "nonIncreasing (map timestamp' (getFeedItems (runOps P ops (newFeedEngine fs key)) limit))"
    if "opsPrependNewest P ops (newFeedEngine fs key)"
    using home topic_runOps [OF t that] by (rule getFeedItems_sorted)
  ultimately show ?thesis by blast
qed

theorem feed_ordering_witness:
  "nonIncreasing (map timestamp' (getFeedItems (runOps samplePlatform sampleFeedOps
      (newFeedEngine \<lparr>myPublicKey = bobKey\<rparr> bobKey)) None))
   \<and> map timestamp' (getFeedItems (runOps samplePlatform sampleFeedOps
      (newFeedEngine \<lparr>myPublicKey = bobKey\<rparr> bobKey)) None) = [2, 1]"
  using feed_ordering [of samplePlatform sampleFeedOps "\<lparr>myPublicKey = bobKey\<rparr>" bobKey None]
    sample_ops_in_order sample_feed_items
  by blast

lemma sample_older_arrives:
  "map timestamp' (getFeedItems sampleFeedOlderArrives None) = [1, 2]"
  by code_simp

text \<open>
  Claim C7 as stated, that the topic feed stays non-increasing even when \<^verbatim>\<open>addEvent\<close>
  prepends a post older than the head, fails: with the filter \<open>tech\<close>, the topic feed loaded
  with a post of time 2 and a post of time 1 then added, \<^verbatim>\<open>getFeedItems\<close> returns the
  timestamps 1, 2.
\<close>

theorem feed_ordering_counterexample:
  "\<not> nonIncreasing (map timestamp' (getFeedItems sampleFeedOlderArrives None))"
  by (simp add: sample_older_arrives nonIncreasing_def)

subsection \<open>Convergence of a sync exchange\<close>

lemma put_subset: "set (put k v xs) \<subseteq> insert v (set xs)"
  by (induction xs) auto

lemma get_Some: "get k i xs = Some x \<Longrightarrow> x \<in> set xs \<and> k x = i"
  by (induction xs) (auto split: if_splits)

lemma get_mem: "i \<in> k ` set xs \<Longrightarrow> \<exists>x. get k i xs = Some x"
  by (induction xs) auto

lemma ids_storeEvent: "id' ` set (events (storeEvent e d)) = insert (id' e) (id' ` set (events d))"
  using put_keys [of id' e "events d"] by (simp add: events_storeEvent)

lemma events_storeEvent_subset: "set (events (storeEvent e d)) \<subseteq> insert e (set (events d))"
  by (simp add: events_storeEvent put_subset)

lemma lookup_subset: "set (handleEventRequest_loop d ids) \<subseteq> set (events d)"
  by (induction ids) (auto simp: getEvent_def split: option.splits dest: get_Some)

lemma lookup_ids:
  "i \<in> set ids \<Longrightarrow> i \<in> id' ` set (events d) \<Longrightarrow> i \<in> id' ` set (handleEventRequest_loop d ids)"
proof (induction ids)
  case Nil
  then show ?case by simp
next
  case (Cons j ids)
  show ?case
  proof (cases "i = j")
    case True
    with Cons.prems(2) obtain x where x: "get id' j (events d) = Some x"
      using get_mem [of j id' "events d"] by blast
    then have "id' x = j" by (auto dest: get_Some)
    with x True show ?thesis by (simp add: getEvent_def)
  next
    case False
    with Cons have "i \<in> id' ` set (handleEventRequest_loop d ids)" by simp
    then show ?thesis by (auto split: option.splits)
  qed
qed

lemma outEvents_append: "outEvents (xs @ ys) = outEvents xs \<union> outEvents ys"
  by (simp add: outEvents_def)

lemma outEvents_simps:
  "outEvents [] = {}"
  "outEvents ((p, m) # xs) = set (msgEvents m) \<union> outEvents xs"
  by (simp_all add: outEvents_def)

lemma sendToPeers_outbox: "outbox (sendToPeers ps m n) = outbox n @ map (\<lambda>p. (p, m)) ps"
  by (induction ps arbitrary: n) (simp_all add: sendMessage_def)

lemma outEvents_fanout: "outEvents (map (\<lambda>p. (p, m)) ps) \<subseteq> set (msgEvents m)"
  by (induction ps) (auto simp: outEvents_simps)

lemma processEventQueue_loop_queue:
  "set (eventQueue (processEventQueue_loop q n)) \<subseteq> set (eventQueue n) \<union> set q"
proof (induction q arbitrary: n)
  case Nil
  then show ?case by simp
next
  case (Cons e rest)
  have "set (eventQueue (processEventQueue_loop rest
          (sendToPeers (connectedPeers n) (NewEvent e) (n\<lparr>eventQueue := rest\<rparr>)))) \<subseteq> set rest \<union> set rest"
    using Cons.IH [of "sendToPeers (connectedPeers n) (NewEvent e) (n\<lparr>eventQueue := rest\<rparr>)"]
    by (simp add: sendToPeers_fields)
  then show ?case by auto
qed

lemma processEventQueue_loop_outbox:
  "\<exists>ext. outbox (processEventQueue_loop q n) = outbox n @ ext \<and> outEvents ext \<subseteq> set q"
proof (induction q arbitrary: n)
  case Nil
  then show ?case by (simp add: outEvents_simps)
next
  case (Cons e rest)
  let ?n1 = "sendToPeers (connectedPeers n) (NewEvent e) (n\<lparr>eventQueue := rest\<rparr>)"
  from Cons.IH [of ?n1] obtain ext where
    ext: "outbox (processEventQueue_loop rest ?n1) = outbox ?n1 @ ext" "outEvents ext \<subseteq> set rest"
    by blast
  have o1: "outbox ?n1 = outbox n @ map (\<lambda>p. (p, NewEvent e)) (connectedPeers n)"
    by (simp add: sendToPeers_outbox)
  have "outEvents (map (\<lambda>p. (p, NewEvent e)) (connectedPeers n) @ ext) \<subseteq> set (e # rest)"
    using ext(2) outEvents_fanout [of "NewEvent e" "connectedPeers n"]
    by (auto simp: outEvents_append)
  with ext(1) o1 show ?case
    by (intro exI [of _ "map (\<lambda>p. (p, NewEvent e)) (connectedPeers n) @ ext"]) simp
qed

lemma processEventQueue_queue:
  "set (eventQueue (processEventQueue n)) \<subseteq> set (eventQueue n)"
  using processEventQueue_loop_queue [of "eventQueue n" "n\<lparr>processingQueue := True\<rparr>"]
  by (simp add: processEventQueue_def)

lemma processEventQueue_outbox:
  "\<exists>ext. outbox (processEventQueue n) = outbox n @ ext \<and> outEvents ext \<subseteq> set (eventQueue n)"
  using processEventQueue_loop_outbox [of "eventQueue n" "n\<lparr>processingQueue := True\<rparr>"]
  by (auto simp: processEventQueue_def outEvents_simps)

lemma within_unfold:
  "within E n \<longleftrightarrow> set (events (db n)) \<subseteq> E \<and> set (eventQueue n) \<subseteq> E \<and> outEvents (outbox n) \<subseteq> E"
  by (simp add: within_def)

text \<open>What \<^verbatim>\<open>processIncomingEvent\<close> keeps.\<close>

lemma processIncomingEvent_cases:
  assumes "processIncomingEvent P e p n = Inr n'"
  shows "n' = n
       \<or> (hasEvent (db n) (id' e) \<and> n' = n\<lparr>seenEventIds := set_add (id' e) (seenEventIds n)\<rparr>)
       \<or> (\<not> processingQueue n \<and>
            n' = processEventQueue (n\<lparr>db := storeEvent e (db n),
                    seenEventIds := set_add (id' e) (seenEventIds n),
                    eventQueue := eventQueue n @ [e]\<rparr>))
       \<or> (processingQueue n \<and>
            n' = n\<lparr>db := storeEvent e (db n),
                    seenEventIds := set_add (id' e) (seenEventIds n),
                    eventQueue := eventQueue n @ [e]\<rparr>)"
proof (cases "id' e \<in> set (seenEventIds n)")
  case True
  with assms show ?thesis by (simp add: processIncomingEvent_def)
next
  case unseen: False
  show ?thesis
  proof (cases "isValidEvent P e")
    case (Inl err)
    with unseen assms show ?thesis by (simp add: processIncomingEvent_def)
  next
    case (Inr v)
    show ?thesis
    proof (cases v)
      case False
      with unseen Inr assms show ?thesis by (simp add: processIncomingEvent_def)
    next
      case True
      show ?thesis
      proof (cases "hasEvent (db n) (id' e)")
        case has: True
        with unseen Inr True assms show ?thesis by (simp add: processIncomingEvent_def)
      next
        case False
        with unseen Inr True assms show ?thesis
          by (cases "processingQueue n") (simp_all add: processIncomingEvent_def Let_def)
      qed
    qed
  qed
qed

lemma stored_within:
  assumes "within E n" and "e \<in> E"
  shows "within E (n\<lparr>db := storeEvent e (db n), seenEventIds := sn, eventQueue := eventQueue n @ [e]\<rparr>)"
proof -
  have "set (events (storeEvent e (db n))) \<subseteq> E"
    using assms events_storeEvent_subset [of e "db n"] by (auto simp: within_def)
  with assms show ?thesis by (simp add: within_def)
qed

lemma stored_seen:
  assumes "seenStored n"
  shows "seenStored (n\<lparr>db := storeEvent e (db n), seenEventIds := set_add (id' e) (seenEventIds n),
           eventQueue := q\<rparr>)"
  using assms by (auto simp: seenStored_def idsOf_def set_set_add ids_storeEvent)

lemma stored_ids:
  "idsOf n \<subseteq> idsOf (n\<lparr>db := storeEvent e (db n), seenEventIds := sn, eventQueue := q\<rparr>)"
  by (auto simp: idsOf_def ids_storeEvent)

lemma processEventQueue_keeps:
  assumes "within E n"
  shows "within E (processEventQueue n)"
proof -
  from processEventQueue_outbox [of n] obtain ext where
    ext: "outbox (processEventQueue n) = outbox n @ ext" "outEvents ext \<subseteq> set (eventQueue n)"
    by blast
  have "outEvents (outbox (processEventQueue n)) \<subseteq> E"
    using assms ext by (auto simp: within_def outEvents_append)
  moreover have "set (eventQueue (processEventQueue n)) \<subseteq> E"
    using assms processEventQueue_queue [of n] by (auto simp: within_def)
  moreover have "set (events (db (processEventQueue n))) \<subseteq> E"
    using assms by (simp add: within_def processEventQueue_fields)
  ultimately show ?thesis by (simp add: within_def)
qed

lemma processEventQueue_same:
  "seenStored (processEventQueue n) = seenStored n" "idsOf (processEventQueue n) = idsOf n"
  by (simp_all add: seenStored_def idsOf_def processEventQueue_fields)

lemma processIncomingEvent_keeps:
  assumes "within E n" and "seenStored n" and "e \<in> E"
    and "processIncomingEvent P e p n = Inr n'"
  shows "within E n' \<and> seenStored n' \<and> idsOf n \<subseteq> idsOf n' \<and> (\<exists>ext. outbox n' = outbox n @ ext)"
proof -
  let ?n3 = "n\<lparr>db := storeEvent e (db n), seenEventIds := set_add (id' e) (seenEventIds n),
               eventQueue := eventQueue n @ [e]\<rparr>"
  from processIncomingEvent_cases [OF assms(4)] consider
      (same) "n' = n"
    | (seen) "hasEvent (db n) (id' e)" "n' = n\<lparr>seenEventIds := set_add (id' e) (seenEventIds n)\<rparr>"
    | (stored) "n' = processEventQueue ?n3"
    | (queued) "n' = ?n3"
    by blast
  then show ?thesis
  proof cases
    case same
    with assms show ?thesis by simp
  next
    case seen
    have "within E n'" using assms(1) seen(2) by (simp add: within_def)
    moreover have "seenStored n'"
      using assms(2) seen by (auto simp: seenStored_def idsOf_def set_set_add hasEvent_iff)
    moreover have "idsOf n \<subseteq> idsOf n'" using seen(2) by (simp add: idsOf_def)
    moreover have "outbox n' = outbox n @ []" using seen(2) by simp
    ultimately show ?thesis by blast
  next
    case stored
    have "within E n'"
      unfolding stored by (rule processEventQueue_keeps) (rule stored_within [OF assms(1,3)])
    moreover have "seenStored n'"
      unfolding stored processEventQueue_same by (rule stored_seen [OF assms(2)])
    moreover have "idsOf n \<subseteq> idsOf n'"
      unfolding stored processEventQueue_same by (rule stored_ids)
    moreover have "\<exists>ext. outbox n' = outbox n @ ext"
      using processEventQueue_outbox [of ?n3] unfolding stored by auto
    ultimately show ?thesis by blast
  next
    case queued
    have "within E n'"
      unfolding queued by (rule stored_within [OF assms(1,3)])
    moreover have "seenStored n'"
      unfolding queued by (rule stored_seen [OF assms(2)])
    moreover have "idsOf n \<subseteq> idsOf n'"
      unfolding queued by (rule stored_ids)
    moreover have "outbox n' = outbox n @ []" unfolding queued by simp
    ultimately show ?thesis by blast
  qed
qed

text \<open>A valid event is stored once it has been processed.\<close>

lemma processIncomingEvent_stores:
  assumes "seenStored n" and "isValidEvent P e = Inr True"
  shows "\<exists>n'. processIncomingEvent P e p n = Inr n' \<and> id' e \<in> idsOf n'"
proof (cases "id' e \<in> set (seenEventIds n)")
  case True
  with assms(1) show ?thesis
    by (auto simp: processIncomingEvent_def seenStored_def)
next
  case False
  from processIncomingEvent_valid [OF False assms(2), of p] show ?thesis
    by (auto simp: hasEvent_iff idsOf_def)
qed

lemma handleEventResponse_keeps:
  assumes "within E n" and "seenStored n" and "set es \<subseteq> E"
  shows "within E (fst (handleEventResponse P p es n))
       \<and> seenStored (fst (handleEventResponse P p es n))
       \<and> idsOf n \<subseteq> idsOf (fst (handleEventResponse P p es n))
       \<and> (\<exists>ext. outbox (fst (handleEventResponse P p es n)) = outbox n @ ext)"
  using assms
proof (induction es arbitrary: n)
  case Nil
  then show ?case by simp
next
  case (Cons e es)
  show ?case
  proof (cases "processIncomingEvent P e p n")
    case (Inl err)
    with Cons.prems show ?thesis by simp
  next
    case (Inr n1)
    from Cons.prems have "e \<in> E" by simp
    from processIncomingEvent_keeps [OF Cons.prems(1,2) this Inr]
    have k: "within E n1" "seenStored n1" "idsOf n \<subseteq> idsOf n1" "\<exists>ext. outbox n1 = outbox n @ ext"
      by blast+
    from Cons.prems have "set es \<subseteq> E" by simp
    from Cons.IH [OF k(1,2) this] k(3,4) Inr show ?thesis
      by auto
  qed
qed

lemma handleEventResponse_stores:
  assumes "within E n" and "seenStored n" and "set es \<subseteq> E"
    and "\<And>e. e \<in> E \<Longrightarrow> isValidEvent P e = Inr True"
  shows "id' ` set es \<subseteq> idsOf (fst (handleEventResponse P p es n))"
  using assms(1,2,3)
proof (induction es arbitrary: n)
  case Nil
  then show ?case by simp
next
  case (Cons e es)
  from Cons.prems have e: "e \<in> E" and es: "set es \<subseteq> E" by simp_all
  from processIncomingEvent_stores [OF Cons.prems(2) assms(4) [OF e], of p]
  obtain n1 where n1: "processIncomingEvent P e p n = Inr n1" "id' e \<in> idsOf n1"
    by blast
  from processIncomingEvent_keeps [OF Cons.prems(1,2) e n1(1)]
  have k: "within E n1" "seenStored n1" by blast+
  from handleEventResponse_keeps [OF k es, of P p]
  have "idsOf n1 \<subseteq> idsOf (fst (handleEventResponse P p es n1))" by blast
  with n1 Cons.IH [OF k es] show ?case by auto
qed

text \<open>Handlers that only send.\<close>

lemma sends_keeps:
  assumes "within E n" and "seenStored n" and "outEvents ext \<subseteq> E"
  shows "within E (n\<lparr>outbox := outbox n @ ext\<rparr>)" "seenStored (n\<lparr>outbox := outbox n @ ext\<rparr>)"
    "idsOf (n\<lparr>outbox := outbox n @ ext\<rparr>) = idsOf n"
  using assms by (simp_all add: within_def seenStored_def idsOf_def outEvents_append)

lemma requestEvents_eq:
  "\<exists>bs. requestEvents p ids n = n\<lparr>outbox := outbox n @ map (\<lambda>b. (p, EventRequest b)) bs\<rparr>
        \<and> concat bs = ids"
proof -
  let ?c = "(length ids + 99) div 100"
  let ?bs = "map (\<lambda>k. slice ids (k * 100) (k * 100 + 100)) [0..<?c]"
  have "requestEvents p ids n =
          n\<lparr>outbox := outbox n @
            map (\<lambda>k. (p, EventRequest (slice ids (0 + k * 100) (0 + k * 100 + 100))))
              [0..<(length ids - 0 + 99) div 100]\<rparr>"
    unfolding requestEvents_def by (rule requestEvents_loop_eq)
  then have "requestEvents p ids n = n\<lparr>outbox := outbox n @ map (\<lambda>b. (p, EventRequest b)) ?bs\<rparr>"
    by (simp add: comp_def)
  moreover have "concat ?bs = ids"
  proof -
    have "length ids \<le> ?c * 100" by (rule batches_cover)
    then show ?thesis by (simp add: concat_slices)
  qed
  ultimately show ?thesis by blast
qed

lemma outEvents_requests: "outEvents (map (\<lambda>b. (p, EventRequest b)) bs) = {}"
  by (induction bs) (simp_all add: outEvents_simps)

lemma handleSyncResponse_eq:
  "\<exists>bs. handleSyncResponse p missingIds tm n
          = n\<lparr>outbox := outbox n @ map (\<lambda>b. (p, EventRequest b)) bs\<rparr>
        \<and> concat bs = missingIds"
proof (cases "missingIds = []")
  case True
  then have "handleSyncResponse p missingIds tm n = n\<lparr>outbox := outbox n @ map (\<lambda>b. (p, EventRequest b)) []\<rparr>"
    by (simp add: handleSyncResponse_def)
  with True show ?thesis by (intro exI [of _ "[]"]) simp
next
  case False
  then have "handleSyncResponse p missingIds tm n = requestEvents p missingIds n"
    by (simp add: handleSyncResponse_def)
  with requestEvents_eq [of p missingIds n] show ?thesis by simp
qed

lemma handleSyncRequest_eq:
  "\<exists>bs tm ms. handleSyncRequest p ids n
          = n\<lparr>outbox := outbox n @ (p, SyncResponse tm ms) # map (\<lambda>b. (p, EventRequest b)) bs\<rparr>
        \<and> set tm = idsOf n - set ids \<and> set (concat bs) = set ids - idsOf n"
proof -
  let ?ms = "filter (\<lambda>i. i \<notin> set (getAllEventIds (db n))) (newSet ids)"
  let ?tm = "filter (\<lambda>i. i \<notin> set (newSet ids)) (getAllEventIds (db n))"
  let ?n1 = "sendMessage p (SyncResponse ?tm ?ms) n"
  have tm: "set ?tm = idsOf n - set ids" and ms: "set ?ms = set ids - idsOf n"
    by (auto simp: idsOf_def set_getAllEventIds set_newSet)
  show ?thesis
  proof (cases "?ms = []")
    case True
    then have "handleSyncRequest p ids n
        = n\<lparr>outbox := outbox n @ (p, SyncResponse ?tm ?ms) # map (\<lambda>b. (p, EventRequest b)) []\<rparr>"
      by (simp add: handleSyncRequest_def Let_def sendMessage_def)
    moreover have "set (concat ([]::string list list)) = set ids - idsOf n"
      using True ms by simp
    ultimately show ?thesis using tm by blast
  next
    case False
    then have h: "handleSyncRequest p ids n = requestEvents p ?ms ?n1"
      by (simp add: handleSyncRequest_def Let_def)
    from requestEvents_eq [of p ?ms ?n1] obtain bs where
      bs: "requestEvents p ?ms ?n1 = ?n1\<lparr>outbox := outbox ?n1 @ map (\<lambda>b. (p, EventRequest b)) bs\<rparr>"
        "concat bs = ?ms"
      by blast
    from h bs(1) have "handleSyncRequest p ids n
        = n\<lparr>outbox := outbox n @ (p, SyncResponse ?tm ?ms) # map (\<lambda>b. (p, EventRequest b)) bs\<rparr>"
      by (simp add: sendMessage_def)
    moreover have "set (concat bs) = set ids - idsOf n"
      using bs(2) ms by simp
    ultimately show ?thesis using tm by blast
  qed
qed

lemma handleEventRequest_eq:
  "handleEventRequest p ids n
     = n\<lparr>outbox := outbox n @ [(p, EventResponse (handleEventRequest_loop (db n) ids))]\<rparr>"
  by (simp add: handleEventRequest_def sendMessage_def)

text \<open>Every handled message keeps the invariants, and only adds to the store and the outbox.\<close>

lemma handleIncomingStream_keeps:
  assumes "within E n" and "seenStored n" and "set (msgEvents m) \<subseteq> E"
  shows "within E (handleIncomingStream P p m n) \<and> seenStored (handleIncomingStream P p m n)
       \<and> idsOf n \<subseteq> idsOf (handleIncomingStream P p m n)
       \<and> (\<exists>ext. outbox (handleIncomingStream P p m n) = outbox n @ ext)"
proof (cases m)
  case (SyncRequest ids)
  from handleSyncRequest_eq [of p ids n] obtain bs tm ms where
    eq: "handleSyncRequest p ids n
          = n\<lparr>outbox := outbox n @ (p, SyncResponse tm ms) # map (\<lambda>b. (p, EventRequest b)) bs\<rparr>"
    by blast
  have "outEvents ((p, SyncResponse tm ms) # map (\<lambda>b. (p, EventRequest b)) bs) \<subseteq> E"
    by (simp add: outEvents_simps outEvents_requests)
  from sends_keeps [OF assms(1,2) this] show ?thesis
    unfolding handleIncomingStream_def SyncRequest by (simp add: eq)
next
  case (SyncResponse ms tm)
  from handleSyncResponse_eq [of p ms tm n] obtain bs where
    eq: "handleSyncResponse p ms tm n = n\<lparr>outbox := outbox n @ map (\<lambda>b. (p, EventRequest b)) bs\<rparr>"
    by blast
  have "outEvents (map (\<lambda>b. (p, EventRequest b)) bs) \<subseteq> E"
    by (simp add: outEvents_requests)
  from sends_keeps [OF assms(1,2) this] show ?thesis
    unfolding handleIncomingStream_def SyncResponse by (simp add: eq)
next
  case (EventRequest ids)
  have "outEvents [(p, EventResponse (handleEventRequest_loop (db n) ids))] \<subseteq> E"
    using lookup_subset [of "db n" ids] assms(1) by (auto simp: outEvents_simps within_def)
  from sends_keeps [OF assms(1,2) this] show ?thesis
    unfolding handleIncomingStream_def EventRequest by (simp add: handleEventRequest_eq)
next
  case (EventResponse es)
  with assms(3) have "set es \<subseteq> E" by simp
  from handleEventResponse_keeps [OF assms(1,2) this, of P p] show ?thesis
    unfolding handleIncomingStream_def EventResponse by simp
next
  case (NewEvent e)
  with assms(3) have e: "e \<in> E" by simp
  show ?thesis
  proof (cases "processIncomingEvent P e p n")
    case (Inl err)
    with assms show ?thesis
      unfolding handleIncomingStream_def NewEvent by (simp add: handleNewEvent_def)
  next
    case (Inr n1)
    from processIncomingEvent_keeps [OF assms(1,2) e Inr] Inr show ?thesis
      unfolding handleIncomingStream_def NewEvent by (simp add: handleNewEvent_def)
  qed
qed

lemma deliver_keeps:
  assumes "within E n" and "seenStored n" and "\<And>m. m \<in> set ms \<Longrightarrow> set (msgEvents m) \<subseteq> E"
  shows "within E (deliver P p ms n) \<and> seenStored (deliver P p ms n)
       \<and> idsOf n \<subseteq> idsOf (deliver P p ms n)
       \<and> set (outbox n) \<subseteq> set (outbox (deliver P p ms n))"
  using assms
proof (induction ms arbitrary: n)
  case Nil
  then show ?case by simp
next
  case (Cons m ms)
  have "set (msgEvents m) \<subseteq> E" using Cons.prems(3) by simp
  from handleIncomingStream_keeps [OF Cons.prems(1,2) this, of P p]
  have k: "within E (handleIncomingStream P p m n)" "seenStored (handleIncomingStream P p m n)"
    "idsOf n \<subseteq> idsOf (handleIncomingStream P p m n)"
    "set (outbox n) \<subseteq> set (outbox (handleIncomingStream P p m n))"
    by auto
  have "\<And>m'. m' \<in> set ms \<Longrightarrow> set (msgEvents m') \<subseteq> E" using Cons.prems(3) by simp
  from Cons.IH [OF k(1,2) this] k(3,4) show ?case by auto
qed

text \<open>What a delivered list of messages brings about.\<close>

lemma deliver_stores_response:
  assumes "within E n" and "seenStored n"
    and "\<And>m. m \<in> set ms \<Longrightarrow> set (msgEvents m) \<subseteq> E"
    and "\<And>e. e \<in> E \<Longrightarrow> isValidEvent P e = Inr True"
    and "EventResponse es \<in> set ms"
  shows "id' ` set es \<subseteq> idsOf (deliver P p ms n)"
  using assms(1,2,3,5)
proof (induction ms arbitrary: n)
  case Nil
  then show ?case by simp
next
  case (Cons m ms)
  let ?n1 = "handleIncomingStream P p m n"
  have me: "set (msgEvents m) \<subseteq> E" using Cons.prems(3) by simp
  from handleIncomingStream_keeps [OF Cons.prems(1,2) me, of P p]
  have k: "within E ?n1" "seenStored ?n1" by blast+
  have rest: "\<And>m'. m' \<in> set ms \<Longrightarrow> set (msgEvents m') \<subseteq> E" using Cons.prems(3) by simp
  show ?case
  proof (cases "EventResponse es \<in> set ms")
    case True
    from Cons.IH [OF k rest True] show ?thesis by simp
  next
    case False
    with Cons.prems(4) have m: "m = EventResponse es" by simp
    with me have "set es \<subseteq> E" by simp
    from handleEventResponse_stores [OF Cons.prems(1,2) this assms(4), where p = p]
    have "id' ` set es \<subseteq> idsOf ?n1"
      by (simp add: handleIncomingStream_def m)
    moreover from deliver_keeps [OF k rest, where P = P and p = p]
    have "idsOf ?n1 \<subseteq> idsOf (deliver P p ms ?n1)" by blast
    ultimately show ?thesis by auto
  qed
qed

lemma deliver_answers_request:
  assumes "within E n" and "seenStored n"
    and "\<And>m. m \<in> set ms \<Longrightarrow> set (msgEvents m) \<subseteq> E"
    and "EventRequest ids \<in> set ms"
  shows "\<exists>es. (p, EventResponse es) \<in> set (outbox (deliver P p ms n))
             \<and> set ids \<inter> idsOf n \<subseteq> id' ` set es"
  using assms
proof (induction ms arbitrary: n)
  case Nil
  then show ?case by simp
next
  case (Cons m ms)
  let ?n1 = "handleIncomingStream P p m n"
  have me: "set (msgEvents m) \<subseteq> E" using Cons.prems(3) by simp
  from handleIncomingStream_keeps [OF Cons.prems(1,2) me, of P p]
  have k: "within E ?n1" "seenStored ?n1" and mono: "idsOf n \<subseteq> idsOf ?n1" by blast+
  have rest: "\<And>m'. m' \<in> set ms \<Longrightarrow> set (msgEvents m') \<subseteq> E" using Cons.prems(3) by simp
  show ?case
  proof (cases "EventRequest ids \<in> set ms")
    case True
    from Cons.IH [OF k rest True] obtain es where
      "(p, EventResponse es) \<in> set (outbox (deliver P p ms ?n1))"
      "set ids \<inter> idsOf ?n1 \<subseteq> id' ` set es"
      by blast
    with mono show ?thesis by (intro exI [of _ es]) auto
  next
    case False
    with Cons.prems(4) have m: "m = EventRequest ids" by simp
    let ?es = "handleEventRequest_loop (db n) ids"
    have "(p, EventResponse ?es) \<in> set (outbox ?n1)"
      by (simp add: handleIncomingStream_def m handleEventRequest_eq)
    moreover from deliver_keeps [OF k rest, where P = P and p = p]
    have "set (outbox ?n1) \<subseteq> set (outbox (deliver P p ms ?n1))" by blast
    moreover have "set ids \<inter> idsOf n \<subseteq> id' ` set ?es"
      using lookup_ids [of _ ids "db n"] by (auto simp: idsOf_def)
    ultimately show ?thesis by (intro exI [of _ ?es]) auto
  qed
qed

lemma deliver_requests_missing:
  assumes "within E n" and "seenStored n"
    and "\<And>m. m \<in> set ms \<Longrightarrow> set (msgEvents m) \<subseteq> E"
    and "SyncResponse missingIds tm \<in> set ms" and "i \<in> set missingIds"
  shows "\<exists>batch. i \<in> set batch \<and> (p, EventRequest batch) \<in> set (outbox (deliver P p ms n))"
  using assms(1,2,3,4)
proof (induction ms arbitrary: n)
  case Nil
  then show ?case by simp
next
  case (Cons m ms)
  let ?n1 = "handleIncomingStream P p m n"
  have me: "set (msgEvents m) \<subseteq> E" using Cons.prems(3) by simp
  from handleIncomingStream_keeps [OF Cons.prems(1,2) me, of P p]
  have k: "within E ?n1" "seenStored ?n1" by blast+
  have rest: "\<And>m'. m' \<in> set ms \<Longrightarrow> set (msgEvents m') \<subseteq> E" using Cons.prems(3) by simp
  show ?case
  proof (cases "SyncResponse missingIds tm \<in> set ms")
    case True
    from Cons.IH [OF k rest True] show ?thesis by simp
  next
    case False
    with Cons.prems(4) have m: "m = SyncResponse missingIds tm" by simp
    from handleSyncResponse_eq [of p missingIds tm n] obtain bs where
      bs: "handleSyncResponse p missingIds tm n
             = n\<lparr>outbox := outbox n @ map (\<lambda>b. (p, EventRequest b)) bs\<rparr>"
        "concat bs = missingIds"
      by blast
    from bs(2) assms(5) obtain batch where batch: "batch \<in> set bs" "i \<in> set batch"
      by auto
    then have "(p, EventRequest batch) \<in> set (outbox ?n1)"
      by (auto simp: handleIncomingStream_def m bs(1))
    moreover from deliver_keeps [OF k rest, where P = P and p = p]
    have "set (outbox ?n1) \<subseteq> set (outbox (deliver P p ms ?n1))" by blast
    ultimately show ?thesis using batch(2) by (intro exI [of _ batch]) auto
  qed
qed

lemma addressedTo_mem: "(p, m) \<in> set out \<Longrightarrow> m \<in> set (addressedTo p out)"
  by (force simp: addressedTo_def)

lemma addressedTo_events: "m \<in> set (addressedTo p out) \<Longrightarrow> set (msgEvents m) \<subseteq> outEvents out"
  by (auto simp: addressedTo_def outEvents_def)

lemma cleared_keeps:
  "within E n \<Longrightarrow> within E (n\<lparr>outbox := []\<rparr>)"
  "seenStored (n\<lparr>outbox := []\<rparr>) = seenStored n"
  "idsOf (n\<lparr>outbox := []\<rparr>) = idsOf n"
  by (simp_all add: within_def seenStored_def idsOf_def outEvents_simps)

lemma within_ids: "within E n \<Longrightarrow> idsOf n \<subseteq> id' ` E"
  by (auto simp: within_def idsOf_def)

lemma syncWithPeer_sends:
  "addressedTo b (outbox (syncWithPeer b (A\<lparr>outbox := []\<rparr>))) = [SyncRequest (getAllEventIds (db A))]"
  "(syncWithPeer b (A\<lparr>outbox := []\<rparr>))\<lparr>outbox := []\<rparr> = A\<lparr>outbox := []\<rparr>"
  by (simp_all add: syncWithPeer_def sendMessage_def Let_def addressedTo_def)

lemma idle_within:
  assumes "set (events (db n)) \<subseteq> E" and "set (eventQueue n) \<subseteq> set (events (db n))"
  shows "within E (n\<lparr>outbox := []\<rparr>)"
  using assms by (auto simp: within_def outEvents_simps)

lemma sync_exchange_ids:
  assumes sA: "seenStored A" and sB: "seenStored B"
    and qA: "set (eventQueue A) \<subseteq> set (events (db A))"
    and qB: "set (eventQueue B) \<subseteq> set (events (db B))"
    and valid: "\<And>e. e \<in> set (events (db A)) \<union> set (events (db B)) \<Longrightarrow> isValidEvent P e = Inr True"
  shows "idsOf (fst (syncExchange P a b A B)) = idsOf A \<union> idsOf B"
    and "idsOf (snd (syncExchange P a b A B)) = idsOf A \<union> idsOf B"
proof -
  define E where "E = set (events (db A)) \<union> set (events (db B))"
  define idsA where "idsA = getAllEventIds (db A)"
  define Ac where "Ac = A\<lparr>outbox := []\<rparr>"
  define B0 where "B0 = B\<lparr>outbox := []\<rparr>"
  define B1 where "B1 = deliver P a [SyncRequest idsA] B0"
  define A2 where "A2 = deliver P b (addressedTo a (outbox B1)) Ac"
  define B2 where "B2 = B1\<lparr>outbox := []\<rparr>"
  define B3 where "B3 = deliver P a (addressedTo b (outbox A2)) B2"
  define A3 where "A3 = A2\<lparr>outbox := []\<rparr>"
  define A4 where "A4 = deliver P b (addressedTo a (outbox B3)) A3"
  define B4 where "B4 = B3\<lparr>outbox := []\<rparr>"
  define B5 where "B5 = deliver P a (addressedTo b (outbox A4)) B4"
  define A5 where "A5 = A4\<lparr>outbox := []\<rparr>"
  have ex: "syncExchange P a b A B = (A5, B5)"
    by (simp add: syncExchange_def transmit_def Let_def syncWithPeer_sends A5_def B5_def A4_def
          B4_def A3_def B3_def A2_def B2_def B1_def B0_def Ac_def idsA_def)
  have v: "\<And>e. e \<in> E \<Longrightarrow> isValidEvent P e = Inr True"
    using valid by (simp add: E_def)
  have idE: "id' ` E = idsOf A \<union> idsOf B"
    by (auto simp: E_def idsOf_def)
  have setA: "set idsA = idsOf A"
    by (simp add: idsA_def set_getAllEventIds idsOf_def)

  \<comment> \<open>the two processes before the exchange\<close>
  have wAc: "within E Ac" unfolding Ac_def
    by (rule idle_within [OF _ qA]) (simp add: E_def)
  have sAc: "seenStored Ac" and iAc: "idsOf Ac = idsOf A"
    using sA by (simp_all add: Ac_def cleared_keeps)
  have wB0: "within E B0" unfolding B0_def
    by (rule idle_within [OF _ qB]) (simp add: E_def)
  have sB0: "seenStored B0" and iB0: "idsOf B0 = idsOf B"
    using sB by (simp_all add: B0_def cleared_keeps)

  \<comment> \<open>B handles the sync request\<close>
  have m0: "\<And>m. m \<in> set [SyncRequest idsA] \<Longrightarrow> set (msgEvents m) \<subseteq> E"
    by auto
  from deliver_keeps [OF wB0 sB0 m0, where P = P and p = a]
  have wB1: "within E B1" and sB1: "seenStored B1" and iB1: "idsOf B0 \<subseteq> idsOf B1"
    unfolding B1_def by blast+
  have B1eq: "B1 = handleSyncRequest a idsA B0"
    by (simp add: B1_def handleIncomingStream_def)
  from handleSyncRequest_eq [of a idsA B0] obtain bs tm ms where
    o1: "handleSyncRequest a idsA B0
           = B0\<lparr>outbox := outbox B0 @ (a, SyncResponse tm ms) # map (\<lambda>b. (a, EventRequest b)) bs\<rparr>"
    and tm: "set tm = idsOf B0 - set idsA" and bs: "set (concat bs) = set idsA - idsOf B0"
    by blast
  have resp1: "(a, SyncResponse tm ms) \<in> set (outbox B1)"
    and req1: "\<And>batch. batch \<in> set bs \<Longrightarrow> (a, EventRequest batch) \<in> set (outbox B1)"
    by (auto simp: B1eq o1)

  \<comment> \<open>A handles the sync response and the event requests of B\<close>
  have m1: "\<And>m. m \<in> set (addressedTo a (outbox B1)) \<Longrightarrow> set (msgEvents m) \<subseteq> E"
    using addressedTo_events wB1 by (fastforce simp: within_def)
  from deliver_keeps [OF wAc sAc m1, where P = P and p = b]
  have wA2: "within E A2" and sA2: "seenStored A2" and iA2: "idsOf Ac \<subseteq> idsOf A2"
    unfolding A2_def by blast+
  have reqA: "\<exists>batch. i \<in> set batch \<and> (b, EventRequest batch) \<in> set (outbox A2)"
    if "i \<in> idsOf B - idsOf A" for i
  proof -
    from that have "i \<in> set tm" by (simp add: tm iB0 setA)
    from deliver_requests_missing [OF wAc sAc m1 addressedTo_mem [OF resp1] this, where P = P and p = b]
    show ?thesis by (simp add: A2_def)
  qed
  have respA: "\<exists>es. i \<in> id' ` set es \<and> (b, EventResponse es) \<in> set (outbox A2)"
    if "i \<in> idsOf A - idsOf B" for i
  proof -
    from that have "i \<in> set idsA - idsOf B0" by (simp add: iB0 setA)
    then have "i \<in> set (concat bs)" by (simp only: bs)
    then obtain batch where batch: "batch \<in> set bs" "i \<in> set batch" by auto
    from deliver_answers_request [OF wAc sAc m1 addressedTo_mem [OF req1 [OF batch(1)]],
        where P = P and p = b]
    obtain es where "(b, EventResponse es) \<in> set (outbox A2)" "set batch \<inter> idsOf Ac \<subseteq> id' ` set es"
      unfolding A2_def by blast
    with batch(2) that iAc show ?thesis by (intro exI [of _ es]) auto
  qed

  \<comment> \<open>B handles the event requests and the event responses of A\<close>
  have wB2: "within E B2" and sB2: "seenStored B2" and iB2: "idsOf B2 = idsOf B1"
    using wB1 sB1 by (simp_all add: B2_def cleared_keeps)
  have m2: "\<And>m. m \<in> set (addressedTo b (outbox A2)) \<Longrightarrow> set (msgEvents m) \<subseteq> E"
    using addressedTo_events wA2 by (fastforce simp: within_def)
  from deliver_keeps [OF wB2 sB2 m2, where P = P and p = a]
  have wB3: "within E B3" and sB3: "seenStored B3" and iB3: "idsOf B2 \<subseteq> idsOf B3"
    unfolding B3_def by blast+
  have hasB: "i \<in> idsOf B3" if "i \<in> idsOf A - idsOf B" for i
  proof -
    from respA [OF that] obtain es where es: "i \<in> id' ` set es" "(b, EventResponse es) \<in> set (outbox A2)"
      by blast
    from deliver_stores_response [OF wB2 sB2 m2 v addressedTo_mem [OF es(2)], where p = a]
    have "id' ` set es \<subseteq> idsOf B3" by (simp add: B3_def)
    with es(1) show ?thesis by auto
  qed
  have respB: "\<exists>es. i \<in> id' ` set es \<and> (a, EventResponse es) \<in> set (outbox B3)"
    if "i \<in> idsOf B - idsOf A" for i
  proof -
    from reqA [OF that] obtain batch where
      batch: "i \<in> set batch" "(b, EventRequest batch) \<in> set (outbox A2)"
      by blast
    from deliver_answers_request [OF wB2 sB2 m2 addressedTo_mem [OF batch(2)], where P = P and p = a]
    obtain es where "(a, EventResponse es) \<in> set (outbox B3)" "set batch \<inter> idsOf B2 \<subseteq> id' ` set es"
      unfolding B3_def by blast
    moreover have "i \<in> idsOf B2" using that iB0 iB1 iB2 by auto
    ultimately show ?thesis using batch(1) by (intro exI [of _ es]) auto
  qed

  \<comment> \<open>A handles the event responses of B\<close>
  have wA3: "within E A3" and sA3: "seenStored A3" and iA3: "idsOf A3 = idsOf A2"
    using wA2 sA2 by (simp_all add: A3_def cleared_keeps)
  have m3: "\<And>m. m \<in> set (addressedTo a (outbox B3)) \<Longrightarrow> set (msgEvents m) \<subseteq> E"
    using addressedTo_events wB3 by (fastforce simp: within_def)
  from deliver_keeps [OF wA3 sA3 m3, where P = P and p = b]
  have wA4: "within E A4" and sA4: "seenStored A4" and iA4: "idsOf A3 \<subseteq> idsOf A4"
    unfolding A4_def by blast+
  have hasA: "i \<in> idsOf A4" if "i \<in> idsOf B - idsOf A" for i
  proof -
    from respB [OF that] obtain es where es: "i \<in> id' ` set es" "(a, EventResponse es) \<in> set (outbox B3)"
      by blast
    from deliver_stores_response [OF wA3 sA3 m3 v addressedTo_mem [OF es(2)], where p = b]
    have "id' ` set es \<subseteq> idsOf A4" by (simp add: A4_def)
    with es(1) show ?thesis by auto
  qed

  \<comment> \<open>B handles what A rebroadcasts\<close>
  have wB4: "within E B4" and sB4: "seenStored B4" and iB4: "idsOf B4 = idsOf B3"
    using wB3 sB3 by (simp_all add: B4_def cleared_keeps)
  have m4: "\<And>m. m \<in> set (addressedTo b (outbox A4)) \<Longrightarrow> set (msgEvents m) \<subseteq> E"
    using addressedTo_events wA4 by (fastforce simp: within_def)
  from deliver_keeps [OF wB4 sB4 m4, where P = P and p = a]
  have wB5: "within E B5" and iB5: "idsOf B4 \<subseteq> idsOf B5"
    unfolding B5_def by blast+
  have wA5: "within E A5" and iA5: "idsOf A5 = idsOf A4"
    using wA4 by (simp_all add: A5_def cleared_keeps)

  have "idsOf A \<union> idsOf B \<subseteq> idsOf A5"
  proof
    fix i assume i: "i \<in> idsOf A \<union> idsOf B"
    show "i \<in> idsOf A5"
    proof (cases "i \<in> idsOf A")
      case True
      with iAc iA2 iA3 iA4 iA5 show ?thesis by auto
    next
      case False
      with i have "i \<in> idsOf B - idsOf A" by simp
      from hasA [OF this] iA5 show ?thesis by simp
    qed
  qed
  moreover have "idsOf A5 \<subseteq> idsOf A \<union> idsOf B"
    using within_ids [OF wA5] idE by simp
  ultimately have "idsOf A5 = idsOf A \<union> idsOf B"
    by blast
  then show "idsOf (fst (syncExchange P a b A B)) = idsOf A \<union> idsOf B"
    by (simp add: ex)
  have "idsOf A \<union> idsOf B \<subseteq> idsOf B5"
  proof
    fix i assume i: "i \<in> idsOf A \<union> idsOf B"
    show "i \<in> idsOf B5"
    proof (cases "i \<in> idsOf B")
      case True
      with iB0 iB1 iB2 iB3 iB4 iB5 show ?thesis by auto
    next
      case False
      with i have "i \<in> idsOf A - idsOf B" by simp
      from hasB [OF this] iB4 iB5 show ?thesis by auto
    qed
  qed
  moreover have "idsOf B5 \<subseteq> idsOf A \<union> idsOf B"
    using within_ids [OF wB5] idE by simp
  ultimately have "idsOf B5 = idsOf A \<union> idsOf B"
    by blast
  then show "idsOf (snd (syncExchange P a b A B)) = idsOf A \<union> idsOf B"
    by (simp add: ex)
qed

text \<open>The hypothesis on the seen set holds in every process: \<^verbatim>\<open>start\<close> establishes it, and
  broadcasting and handling a message keep it.\<close>

lemma seenStored_kept:
  "seenStored (start n)"
  "seenStored n \<Longrightarrow> seenStored (broadcastEvent e n)"
  "seenStored n \<Longrightarrow> seenStored (handleIncomingStream P p m n)"
proof -
  show "seenStored (start n)"
    by (simp add: seenStored_def start_def idsOf_def set_getAllEventIds)
  show "seenStored (broadcastEvent e n)" if "seenStored n"
    using that
    by (auto simp: seenStored_def idsOf_def broadcastEvent_def Let_def sendToPeers_fields
          set_set_add ids_storeEvent)
  show "seenStored (handleIncomingStream P p m n)" if "seenStored n"
  proof -
    have "within UNIV n" by (simp add: within_def)
    from handleIncomingStream_keeps [OF this that, of m P p] show ?thesis by simp
  qed
qed

text \<open>So does the hypothesis on the queue: between two calls the rebroadcast queue is empty
  and its worker is not running.\<close>

lemma processEventQueue_loop_drains:
  "eventQueue (processEventQueue_loop q n) = (if q = [] then eventQueue n else [])"
  "processingQueue (processEventQueue_loop q n) = processingQueue n"
  by (induction q arbitrary: n) (simp_all add: sendToPeers_fields)

lemma processIncomingEvent_idle:
  assumes "eventQueue n = []" and "\<not> processingQueue n"
    and "processIncomingEvent P e p n = Inr n'"
  shows "eventQueue n' = [] \<and> \<not> processingQueue n'"
  using assms
  by (auto simp: processIncomingEvent_def Let_def processEventQueue_def
        processEventQueue_loop_drains sendToPeers_fields split: if_splits sum.splits)

lemma handleEventResponse_idle:
  "eventQueue n = [] \<Longrightarrow> \<not> processingQueue n \<Longrightarrow>
   eventQueue (fst (handleEventResponse P p es n)) = []
   \<and> \<not> processingQueue (fst (handleEventResponse P p es n))"
proof (induction es arbitrary: n)
  case Nil
  then show ?case by simp
next
  case (Cons e es)
  show ?case
  proof (cases "processIncomingEvent P e p n")
    case (Inl err)
    with Cons.prems show ?thesis by simp
  next
    case (Inr n1)
    from processIncomingEvent_idle [OF Cons.prems Inr] Cons.IH [of n1] Inr show ?thesis
      by simp
  qed
qed

lemma idle_kept:
  assumes "eventQueue n = []" and "\<not> processingQueue n"
  shows "eventQueue (start n) = [] \<and> \<not> processingQueue (start n)"
    and "eventQueue (broadcastEvent e n) = [] \<and> \<not> processingQueue (broadcastEvent e n)"
    and "eventQueue (handleIncomingStream P p m n) = []
         \<and> \<not> processingQueue (handleIncomingStream P p m n)"
proof -
  show "eventQueue (start n) = [] \<and> \<not> processingQueue (start n)"
    using assms by (simp add: start_def)
  show "eventQueue (broadcastEvent e n) = [] \<and> \<not> processingQueue (broadcastEvent e n)"
    using assms by (simp add: broadcastEvent_def Let_def sendToPeers_fields)
  show "eventQueue (handleIncomingStream P p m n) = []
         \<and> \<not> processingQueue (handleIncomingStream P p m n)"
  proof (cases m)
    case (SyncRequest ids)
    with assms show ?thesis
      by (simp add: handleIncomingStream_def handleSyncRequest_def Let_def requestEvents_def
            requestEvents_loop_fields sendMessage_def)
  next
    case (SyncResponse ms tm)
    with assms show ?thesis
      by (simp add: handleIncomingStream_def handleSyncResponse_def requestEvents_def
            requestEvents_loop_fields)
  next
    case (EventRequest ids)
    with assms show ?thesis
      by (simp add: handleIncomingStream_def handleEventRequest_def sendMessage_def)
  next
    case (EventResponse es)
    with handleEventResponse_idle [OF assms, of P p es] show ?thesis
      by (simp add: handleIncomingStream_def)
  next
    case (NewEvent ev)
    show ?thesis
    proof (cases "processIncomingEvent P ev p n")
      case (Inl err)
      with assms NewEvent show ?thesis
        by (simp add: handleIncomingStream_def handleNewEvent_def)
    next
      case (Inr n1)
      with processIncomingEvent_idle [OF assms Inr] NewEvent show ?thesis
        by (simp add: handleIncomingStream_def handleNewEvent_def)
    qed
  qed
qed

text \<open>The sample exchange, run: both stores end with both ids, and no message is left to deliver.\<close>

lemma sample_nodes_ok:
  "seenStored sampleNodeA" "seenStored sampleNodeB"
  "set (eventQueue sampleNodeA) \<subseteq> set (events (db sampleNodeA))"
  "set (eventQueue sampleNodeB) \<subseteq> set (events (db sampleNodeB))"
  "\<forall>e \<in> set (events (db sampleNodeA)) \<union> set (events (db sampleNodeB)).
      isValidEvent samplePlatform e = Inr True"
  "idsOf sampleNodeA \<inter> idsOf sampleNodeB = {}"
  by code_simp+

lemma sample_exchange_ids:
  "getAllEventIds (db (fst sampleExchange)) = [''0fed'', ''0ba0'']"
  "getAllEventIds (db (snd sampleExchange)) = [''0ba0'', ''0fed'']"
  "outbox (fst sampleExchange) = []" "outbox (snd sampleExchange) = []"
  by code_simp+

text \<open>Where Alice's store holds a Profile event, which verifies but which
  \<^verbatim>\<open>isValidEvent\<close> rejects, Bob's process drops the event it is sent and the stores differ
  after the exchange.\<close>

lemma sample_exchange_profile:
  "verifyEvent samplePlatform sampleProfileNew = Inr True"
  "isValidEvent samplePlatform sampleProfileNew = Inr False"
  "getAllEventIds (db (fst sampleExchangeP)) = [''0dd8'', ''0ba0'']"
  "getAllEventIds (db (snd sampleExchangeP)) = [''0ba0'']"
  by code_simp+

text \<open>
  Convergence where every stored event passes \<^verbatim>\<open>isValidEvent\<close>: take two processes whose
  seen sets hold stored ids only, whose rebroadcast queues hold stored events only, and whose
  stores hold events that pass \<^verbatim>\<open>isValidEvent\<close>, with no id in both stores. After one
  sync exchange, in which every message sent to the other process is handled by it,
  \<^verbatim>\<open>getAllEventIds\<close> gives the same set of ids in both: the ids of the two stores together.
\<close>

theorem sync_convergence:
  assumes "seenStored A" and "seenStored B"
    and "set (eventQueue A) \<subseteq> set (events (db A))"
    and "set (eventQueue B) \<subseteq> set (events (db B))"
    and "\<forall>e \<in> set (events (db A)) \<union> set (events (db B)). isValidEvent P e = Inr True"
    and "idsOf A \<inter> idsOf B = {}"
  shows "set (getAllEventIds (db (fst (syncExchange P a b A B))))
           = set (getAllEventIds (db (snd (syncExchange P a b A B))))
       \<and> set (getAllEventIds (db (fst (syncExchange P a b A B)))) = idsOf A \<union> idsOf B"
proof -
  have v: "\<And>e. e \<in> set (events (db A)) \<union> set (events (db B)) \<Longrightarrow> isValidEvent P e = Inr True"
    using assms(5) by blast
  have ids: "\<And>n. set (getAllEventIds (db n)) = idsOf n"
    by (simp add: set_getAllEventIds idsOf_def)
  from sync_exchange_ids [OF assms(1,2,3,4) v, of a b] show ?thesis
    by (simp add: ids)
qed

theorem sync_convergence_witness:
  "set (getAllEventIds (db (fst (syncExchange samplePlatform ''peerA'' ''peerB'' sampleNodeA sampleNodeB))))
     = set (getAllEventIds (db (snd (syncExchange samplePlatform ''peerA'' ''peerB'' sampleNodeA sampleNodeB))))
   \<and> set (getAllEventIds (db (fst (syncExchange samplePlatform ''peerA'' ''peerB'' sampleNodeA sampleNodeB))))
     = idsOf sampleNodeA \<union> idsOf sampleNodeB"
  by (rule sync_convergence [OF sample_nodes_ok])

text \<open>
  Claim C2 says that two stores holding disjoint sets of valid events have the same ids after
  one sync exchange. The code does not do so where a store holds a Profile event: Alice's
  store holds one Profile event and Bob's one Follow event, both events pass
  \<^verbatim>\<open>verifyEvent\<close>, no id is in both stores and both seen sets are the stored ids, as
  \<^verbatim>\<open>start\<close> leaves them. Bob's process rejects the Profile event it is sent, because
  \<^verbatim>\<open>isValidEvent\<close> does, and after the exchange Alice's store holds both ids and Bob's
  only his own.
\<close>

theorem sync_profile_not_converged:
  "events (db sampleNodeP) = [sampleProfileNew]
   \<and> events (db sampleNodeB) = [sampleFollowByBob]
   \<and> verifyEvent samplePlatform sampleProfileNew = Inr True
   \<and> verifyEvent samplePlatform sampleFollowByBob = Inr True
   \<and> idsOf sampleNodeP \<inter> idsOf sampleNodeB = {}
   \<and> seenEventIds sampleNodeP = getAllEventIds (db sampleNodeP)
   \<and> seenEventIds sampleNodeB = getAllEventIds (db sampleNodeB)
   \<and> getAllEventIds (db (fst sampleExchangeP)) = [''0dd8'', ''0ba0'']
   \<and> getAllEventIds (db (snd sampleExchangeP)) = [''0ba0'']
   \<and> set (getAllEventIds (db (fst sampleExchangeP))) \<noteq> set (getAllEventIds (db (snd sampleExchangeP)))"
proof -
  have stores: "events (db sampleNodeP) = [sampleProfileNew]"
    "events (db sampleNodeB) = [sampleFollowByBob]"
    by (simp_all add: sampleNodeP_def sampleNodeB_def start_def sampleNode_def emptyDB_def
          storeEvent_def Let_def profileRow_def)
  have verified: "verifyEvent samplePlatform sampleProfileNew = Inr True"
    "verifyEvent samplePlatform sampleFollowByBob = Inr True"
    by code_simp+
  have apart: "idsOf sampleNodeP \<inter> idsOf sampleNodeB = {}"
    by code_simp
  have seen: "seenEventIds sampleNodeP = getAllEventIds (db sampleNodeP)"
    "seenEventIds sampleNodeB = getAllEventIds (db sampleNodeB)"
    by (simp_all add: sampleNodeP_def sampleNodeB_def start_def)
  have after: "getAllEventIds (db (fst sampleExchangeP)) = [''0dd8'', ''0ba0'']"
    "getAllEventIds (db (snd sampleExchangeP)) = [''0ba0'']"
    by code_simp+
  then have "set (getAllEventIds (db (fst sampleExchangeP)))
               \<noteq> set (getAllEventIds (db (snd sampleExchangeP)))"
    by simp
  with stores verified apart seen after show ?thesis
    by simp
qed

end
